theory Spec2Isabelle
  imports Complex_Main
begin

section \<open>Values and strings\<close>

text \<open>
  A Python string is modelled as a \<open>string\<close>, one \<open>char\<close> per code point; the model
  covers the code points below 256.  A cell of a pandas table or an argument of one of the
  cleaning functions is dynamically typed: \<open>Null\<close> stands for \<open>None\<close> and for \<open>NaN\<close>
  (pandas treats both as missing), \<open>Str\<close> for a \<open>str\<close>, \<open>Num\<close> for a number (floats are
  modelled by the exact rational they denote, rounding is left out) and \<open>Bool\<close> for a
  boolean.
\<close>

datatype cell = Null | Str string | Num rat | Bool bool

text \<open>\<open>isinstance(x, str)\<close>.\<close>

fun is_str :: "cell \<Rightarrow> bool" where
  "is_str (Str s) = True"
| "is_str _ = False"

text \<open>\<open>Series.notna()\<close> on one element.\<close>

fun notna :: "cell \<Rightarrow> bool" where
  "notna Null = False"
| "notna _ = True"

text \<open>The regular expression class \<open>\d\<close>: below code point 256 these are the ASCII digits.\<close>

definition is_digit :: "char \<Rightarrow> bool" where
  "is_digit c = (c \<in> set ''0123456789'')"

text \<open>
  \<open>str.isspace\<close>, which is also the regular expression class \<open>\s\<close> and what
  \<open>str.strip()\<close> removes: tab to carriage return, the separators 28 to 31, the space,
  NEL (133) and the no-break space (160).
\<close>

definition is_space :: "char \<Rightarrow> bool" where
  "is_space c = (let n = (of_char c :: nat) in
     (9 \<le> n \<and> n \<le> 13) \<or> (28 \<le> n \<and> n \<le> 32) \<or> n = 133 \<or> n = 160)"

text \<open>\<open>str.strip()\<close>.\<close>

definition strip :: "string \<Rightarrow> string" where
  "strip s = rev (dropWhile is_space (rev (dropWhile is_space s)))"

text \<open>The value of a decimal digit and of a run of digits (\<open>int("0123")\<close>).\<close>

definition digit_val :: "char \<Rightarrow> nat" where
  "digit_val c = of_char c - 48"

definition digits_val :: "string \<Rightarrow> nat" where
  "digits_val ds = foldl (\<lambda>a c. 10 * a + digit_val c) 0 ds"

section \<open>The field normaliser (\<open>data_cleaner.py\<close>)\<close>

subsection \<open>\<open>_extract_price\<close>\<close>

text \<open>
  \<open>float(s)\<close> for a string \<open>s\<close> made of digits and periods only, which is all that
  \<open>_extract_price\<close> passes to it: digits with at most one period and at least one digit
  parse, everything else raises \<open>ValueError\<close> (\<open>None\<close> here).
\<close>

definition py_float :: "string \<Rightarrow> rat option" where
  "py_float s =
     (let ip = takeWhile is_digit s; r = dropWhile is_digit s in
      if r = [] then (if ip = [] then None else Some (of_nat (digits_val ip)))
      else if hd r = CHR ''.'' \<and> list_all is_digit (tl r) \<and> (ip \<noteq> [] \<or> tl r \<noteq> [])
      then Some (of_nat (digits_val ip) + of_nat (digits_val (tl r)) / 10 ^ length (tl r))
      else None)"

text \<open>The character class \<open>[\d.,]\<close>.\<close>

definition is_price_char :: "char \<Rightarrow> bool" where
  "is_price_char c = (is_digit c \<or> c = CHR ''.'' \<or> c = CHR '','')"

text \<open>
  \<open>re.search(r'[\d.,]+', s)\<close>: the leftmost match, extended greedily; \<open>None\<close> when the
  string has no such character.
\<close>

definition search_price :: "string \<Rightarrow> string option" where
  "search_price s =
     (let r = dropWhile (\<lambda>c. \<not> is_price_char c) s in
      if r = [] then None else Some (takeWhile is_price_char r))"

text \<open>
  \<open>_extract_price\<close>: a non-string gives \<open>None\<close>; the stripped tokens \<open>N/A\<close>, \<open>Free\<close>,
  \<open>Free to Play\<close> and the empty string give \<open>0.0\<close>; otherwise the first run of
  \<open>[\d.,]\<close> is taken, everything but digits and periods is deleted from it
  (\<open>re.sub(r'[^\d.]', '', ...)\<close>) and the rest is given to \<open>float\<close>.
\<close>

definition extract_price :: "cell \<Rightarrow> rat option" where
  "extract_price price_str =
     (case price_str of
        Str s \<Rightarrow>
          (let s' = strip s in
           if s' \<in> set [''N/A'', ''Free'', ''Free to Play'', ''''] then Some 0
           else (case search_price s' of
                   Some m \<Rightarrow> py_float (filter (\<lambda>c. is_digit c \<or> c = CHR ''.'') m)
                 | None \<Rightarrow> None))
      | _ \<Rightarrow> None)"

subsection \<open>\<open>_standardize_date\<close>\<close>

text \<open>
  \<open>re.sub(r'\(.*?\)', '', date_str)\<close>: from an opening bracket up to the first closing one
  is deleted, when no line feed stands between them (the dot does not match it); an opening
  bracket with no such closing bracket stays.
\<close>

function remove_parens :: "string \<Rightarrow> string" where
  "remove_parens [] = []"
| "remove_parens (c # s) =
     (if c = CHR ''(''
      then (let r = dropWhile (\<lambda>x. x \<noteq> CHR '')'' \<and> x \<noteq> CHR 0x0A) s in
            if r \<noteq> [] \<and> hd r = CHR '')'' then remove_parens (tl r) else c # remove_parens s)
      else c # remove_parens s)"
  by pat_completeness auto
termination
proof (relation "measure length", goal_cases)
  case 1
  then show ?case by simp
next
  case (2 c s r)
  have "length (dropWhile (\<lambda>x. x \<noteq> CHR '')'' \<and> x \<noteq> CHR 0x0A) s) \<le> length s"
    by (rule length_dropWhile_le)
  with 2 show ?case by (cases r) auto
next
  case 3
  then show ?case by simp
next
  case 4
  then show ?case by simp
qed

declare remove_parens.simps [simp del]

text \<open>
  \<open>datetime.strptime\<close> turns the format into a regular expression, matches it at the start
  of the string without regard to case, and raises \<open>ValueError\<close> when there is no match, when
  the match leaves part of the string over, or when the fields are no date.  The directives
  of the twelve formats are the day \<open>%d\<close>, the month \<open>%m\<close>, the year \<open>%Y\<close>, the month names
  \<open>%b\<close> and \<open>%B\<close> (of the C locale), a white space of the format (\<open>\s+\<close>) and the literal
  characters.
\<close>

datatype directive = Day | Month | Year | MonthAbbr | MonthFull | Space | Lit char

text \<open>
  The matcher backtracks: each directive gives the list of its possible matches, as the
  value read and the rest of the string, in the order in which the expression tries them.
  \<open>%d\<close> is \<open>3[0-1]|[1-2]\d|0[1-9]|[1-9]| [1-9]\<close>, \<open>%m\<close> is \<open>1[0-2]|0[1-9]|[1-9]\<close>, \<open>%Y\<close> is
  \<open>\d\d\d\d\<close>; \<open>\s+\<close> is greedy and gives the longest run first.
\<close>

definition is_nonzero_digit :: "char \<Rightarrow> bool" where
  "is_nonzero_digit c = (c \<in> set ''123456789'')"

definition day_alternatives :: "string \<Rightarrow> (nat \<times> string) list" where
  "day_alternatives s =
     (case s of
        a # b # rest \<Rightarrow>
          (if a = CHR ''3'' \<and> (b = CHR ''0'' \<or> b = CHR ''1'') then [(digits_val [a, b], rest)] else []) @
          (if (a = CHR ''1'' \<or> a = CHR ''2'') \<and> is_digit b then [(digits_val [a, b], rest)] else []) @
          (if a = CHR ''0'' \<and> is_nonzero_digit b then [(digits_val [a, b], rest)] else []) @
          (if is_nonzero_digit a then [(digit_val a, b # rest)] else []) @
          (if a = CHR '' '' \<and> is_nonzero_digit b then [(digit_val b, rest)] else [])
      | [a] \<Rightarrow> (if is_nonzero_digit a then [(digit_val a, [])] else [])
      | [] \<Rightarrow> [])"

definition month_alternatives :: "string \<Rightarrow> (nat \<times> string) list" where
  "month_alternatives s =
     (case s of
        a # b # rest \<Rightarrow>
          (if a = CHR ''1'' \<and> (b = CHR ''0'' \<or> b = CHR ''1'' \<or> b = CHR ''2'')
           then [(digits_val [a, b], rest)] else []) @
          (if a = CHR ''0'' \<and> is_nonzero_digit b then [(digits_val [a, b], rest)] else []) @
          (if is_nonzero_digit a then [(digit_val a, b # rest)] else [])
      | [a] \<Rightarrow> (if is_nonzero_digit a then [(digit_val a, [])] else [])
      | [] \<Rightarrow> [])"

definition year_alternatives :: "string \<Rightarrow> (nat \<times> string) list" where
  "year_alternatives s =
     (if 4 \<le> length s \<and> list_all is_digit (take 4 s) then [(digits_val (take 4 s), drop 4 s)]
      else [])"

text \<open>
  The month names, in the order of the alternatives of \<open>%b\<close> and of \<open>%B\<close> (longest first),
  each with its number.  Case is ignored: the start of the string is compared lowered.
\<close>

definition abbr_months :: "(string \<times> nat) list" where
  "abbr_months =
     [(''jan'', 1), (''feb'', 2), (''mar'', 3), (''apr'', 4), (''may'', 5), (''jun'', 6),
      (''jul'', 7), (''aug'', 8), (''sep'', 9), (''oct'', 10), (''nov'', 11), (''dec'', 12)]"

definition full_months :: "(string \<times> nat) list" where
  "full_months =
     [(''september'', 9), (''february'', 2), (''november'', 11), (''december'', 12),
      (''january'', 1), (''october'', 10), (''august'', 8), (''march'', 3), (''april'', 4),
      (''june'', 6), (''july'', 7), (''may'', 5)]"

definition lower_ascii :: "char \<Rightarrow> char" where
  "lower_ascii c = (let n = (of_char c :: nat) in if 65 \<le> n \<and> n \<le> 90 then char_of (n + 32) else c)"

definition name_alternatives :: "(string \<times> nat) list \<Rightarrow> string \<Rightarrow> (nat \<times> string) list" where
  "name_alternatives names s =
     concat (map (\<lambda>(name, m).
       if length name \<le> length s \<and> map lower_ascii (take (length name) s) = name
       then [(m, drop (length name) s)] else []) names)"

definition space_alternatives :: "string \<Rightarrow> string list" where
  "space_alternatives s =
     map (\<lambda>k. drop k s) (rev [1..<Suc (length (takeWhile is_space s))])"

text \<open>
  The fields that the match sets: year, month and day.  \<open>_strptime\<close> starts from month 1
  and day 1; every format here has \<open>%Y\<close>, so its default year is never used.
\<close>

type_synonym date = "nat \<times> nat \<times> nat"

fun directive_step :: "directive \<Rightarrow> string \<Rightarrow> date \<Rightarrow> (date \<times> string) list" where
  "directive_step Day s (y, m, d) = map (\<lambda>(v, rest). ((y, m, v), rest)) (day_alternatives s)"
| "directive_step Month s (y, m, d) = map (\<lambda>(v, rest). ((y, v, d), rest)) (month_alternatives s)"
| "directive_step Year s (y, m, d) = map (\<lambda>(v, rest). ((v, m, d), rest)) (year_alternatives s)"
| "directive_step MonthAbbr s (y, m, d) =
     map (\<lambda>(v, rest). ((y, v, d), rest)) (name_alternatives abbr_months s)"
| "directive_step MonthFull s (y, m, d) =
     map (\<lambda>(v, rest). ((y, v, d), rest)) (name_alternatives full_months s)"
| "directive_step Space s dt = map (\<lambda>rest. (dt, rest)) (space_alternatives s)"
| "directive_step (Lit c) s dt = (case s of a # rest \<Rightarrow> if a = c then [(dt, rest)] else [] | [] \<Rightarrow> [])"

fun match_format :: "directive list \<Rightarrow> string \<Rightarrow> date \<Rightarrow> (date \<times> string) list" where
  "match_format [] s dt = [(dt, s)]"
| "match_format (x # xs) s dt =
     concat (map (\<lambda>(dt', rest). match_format xs rest dt') (directive_step x s dt))"

text \<open>
  The date must exist: \<open>datetime\<close> takes the years 1 to 9999 and the days of the month, 29
  in February of a leap year.
\<close>

definition is_leap :: "nat \<Rightarrow> bool" where
  "is_leap y = (y mod 4 = 0 \<and> (y mod 100 \<noteq> 0 \<or> y mod 400 = 0))"

definition days_in_month :: "nat \<Rightarrow> nat \<Rightarrow> nat" where
  "days_in_month y m =
     (if m = 2 then (if is_leap y then 29 else 28)
      else if m = 4 \<or> m = 6 \<or> m = 9 \<or> m = 11 then 30 else 31)"

definition valid_date :: "date \<Rightarrow> bool" where
  "valid_date dt = (case dt of (y, m, d) \<Rightarrow>
     1 \<le> y \<and> y \<le> 9999 \<and> 1 \<le> m \<and> m \<le> 12 \<and> 1 \<le> d \<and> d \<le> days_in_month y m)"

definition strptime :: "string \<Rightarrow> directive list \<Rightarrow> date option" where
  "strptime s fmt =
     (case match_format fmt s (1900, 1, 1) of
        [] \<Rightarrow> None
      | (dt, rest) # _ \<Rightarrow> if rest \<noteq> [] then None else if valid_date dt then Some dt else None)"

text \<open>
  Printing.  \<open>str(n)\<close> is the decimal numeral of \<open>n\<close>; \<open>strftime('%Y-%m-%d')\<close> pads month and
  day to two digits and prints the year as the C library does, which on Linux leaves a
  year below 1000 without leading zeros.
\<close>

definition digit_char :: "nat \<Rightarrow> char" where
  "digit_char n = char_of (n + 48)"

fun digits_of :: "nat \<Rightarrow> string" where
  "digits_of n = (if n < 10 then [digit_char n] else digits_of (n div 10) @ [digit_char (n mod 10)])"

declare digits_of.simps [simp del]

definition pad2 :: "nat \<Rightarrow> string" where
  "pad2 n = (if n < 10 then CHR ''0'' # digits_of n else digits_of n)"

definition strftime_iso :: "date \<Rightarrow> string" where
  "strftime_iso dt = (case dt of (y, m, d) \<Rightarrow> digits_of y @ ''-'' @ pad2 m @ ''-'' @ pad2 d)"

text \<open>The twelve formats of \<open>date_formats\<close>, in their order; the last one is \<open>%Y\<close>.\<close>

definition date_formats :: "directive list list" where
  "date_formats =
     [[MonthAbbr, Space, Day, Lit CHR '','', Space, Year],
      [MonthFull, Space, Day, Lit CHR '','', Space, Year],
      [Day, Space, MonthAbbr, Lit CHR '','', Space, Year],
      [Day, Space, MonthFull, Lit CHR '','', Space, Year],
      [Day, Space, MonthAbbr, Space, Year],
      [Day, Space, MonthFull, Space, Year],
      [MonthAbbr, Space, Day, Space, Year],
      [MonthFull, Space, Day, Space, Year],
      [Year, Lit CHR ''-'', Month, Lit CHR ''-'', Day],
      [Month, Lit CHR ''/'', Day, Lit CHR ''/'', Year],
      [Day, Lit CHR ''/'', Month, Lit CHR ''/'', Year],
      [Year]]"

text \<open>
  The loop over the formats: the first format that parses gives the result,
  \<open>f"{date_obj.year}-01-01"\<close> for \<open>%Y\<close> and \<open>strftime('%Y-%m-%d')\<close> for the others.
\<close>

fun try_formats :: "directive list list \<Rightarrow> string \<Rightarrow> string option" where
  "try_formats [] s = None"
| "try_formats (fmt # fmts) s =
     (case strptime s fmt of
        Some dt \<Rightarrow> if fmt = [Year] then Some (digits_of (fst dt) @ ''-01-01'') else Some (strftime_iso dt)
      | None \<Rightarrow> try_formats fmts s)"

text \<open>
  \<open>re.search(r'\b(19|20)\d{2}\b', date_str)\<close>.  \<open>\w\<close> below code point 256 is a letter, a
  digit or the underscore; the match is the leftmost \<open>19dd\<close> or \<open>20dd\<close> with no word
  character before or after it.  The first argument of \<open>year_search\<close> tells whether the
  character before the string is a word character.
\<close>

definition is_word_char :: "char \<Rightarrow> bool" where
  "is_word_char c = (let n = (of_char c :: nat) in
     (48 \<le> n \<and> n \<le> 57) \<or> (65 \<le> n \<and> n \<le> 90) \<or> n = 95 \<or> (97 \<le> n \<and> n \<le> 122) \<or>
     n = 170 \<or> n = 178 \<or> n = 179 \<or> n = 181 \<or> n = 185 \<or> n = 186 \<or> (188 \<le> n \<and> n \<le> 190) \<or>
     (192 \<le> n \<and> n \<le> 214) \<or> (216 \<le> n \<and> n \<le> 246) \<or> 248 \<le> n)"

definition year_here :: "string \<Rightarrow> bool" where
  "year_here s =
     (4 \<le> length s \<and> (take 2 s = ''19'' \<or> take 2 s = ''20'') \<and> is_digit (s ! 2) \<and>
      is_digit (s ! 3) \<and> (length s = 4 \<or> \<not> is_word_char (s ! 4)))"

fun year_search :: "bool \<Rightarrow> string \<Rightarrow> string option" where
  "year_search after_word [] = None"
| "year_search after_word (c # s) =
     (if \<not> after_word \<and> year_here (c # s) then Some (take 4 (c # s))
      else year_search (is_word_char c) s)"

text \<open>\<open>_standardize_date\<close>.\<close>

definition standardize_date :: "cell \<Rightarrow> string option" where
  "standardize_date date_str =
     (case date_str of
        Str s \<Rightarrow>
          (if s \<in> set [''N/A'', ''TBA'', ''''] then None
           else (let s' = strip (remove_parens s) in
                 case try_formats date_formats s' of
                   Some parsed \<Rightarrow> Some parsed
                 | None \<Rightarrow>
                     (case year_search False s' of
                        Some year_match \<Rightarrow> Some (year_match @ ''-01-01'')
                      | None \<Rightarrow> None)))
      | _ \<Rightarrow> None)"

section \<open>\<open>difflib.SequenceMatcher\<close>\<close>

text \<open>
  \<open>string_similarity\<close> calls \<open>SequenceMatcher(None, a, b).ratio()\<close> of the Python standard
  library.  The matcher is modelled as the library defines it, for \<open>isjunk = None\<close> and
  \<open>autojunk = True\<close>: \<open>__chain_b\<close>, \<open>find_longest_match\<close>, \<open>get_matching_blocks\<close> and
  \<open>ratio\<close>.  A match is the triple \<open>(i, j, k)\<close> with \<open>a[i:i+k] == b[j:j+k]\<close>.
\<close>

type_synonym match = "nat \<times> nat \<times> nat"

text \<open>
  \<open>__chain_b\<close>: \<open>b2j\<close> maps every element of \<open>b\<close> to the ascending list of its positions;
  with \<open>autojunk\<close>, when \<open>b\<close> has 200 elements or more, the elements that occur more than
  \<open>len(b) // 100 + 1\<close> times ("popular") are deleted from \<open>b2j\<close>.  No element is junk, since
  \<open>isjunk\<close> is \<open>None\<close>.
\<close>

definition chain_b :: "string \<Rightarrow> (char \<rightharpoonup> nat list)" where
  "chain_b b =
     (let b2j = fold (\<lambda>(i, elt) m. m(elt \<mapsto> (case m elt of None \<Rightarrow> [] | Some indices \<Rightarrow> indices) @ [i]))
                  (enumerate 0 b) Map.empty;
          n = length b
      in if n \<ge> 200
         then (let ntest = n div 100 + 1
               in (\<lambda>elt. case b2j elt of None \<Rightarrow> None
                        | Some idxs \<Rightarrow> if length idxs > ntest then None else Some idxs))
         else b2j)"

text \<open>
  The inner loop of \<open>find_longest_match\<close>, over the positions \<open>j\<close> of \<open>a[i]\<close> in \<open>b\<close>:
  positions below \<open>blo\<close> are skipped, the first one at or after \<open>bhi\<close> ends the loop,
  \<open>k = newj2len[j] = j2len.get(j-1, 0) + 1\<close> and the best match is replaced when \<open>k\<close> is
  larger than its size.  For \<open>j = 0\<close> the key \<open>j - 1\<close> is \<open>-1\<close>, never in \<open>j2len\<close>.
\<close>

fun inner_loop :: "(nat \<rightharpoonup> nat) \<Rightarrow> nat \<Rightarrow> nat \<Rightarrow> nat \<Rightarrow> nat list \<Rightarrow>
    (nat \<rightharpoonup> nat) \<times> match \<Rightarrow> (nat \<rightharpoonup> nat) \<times> match" where
  "inner_loop j2len i blo bhi [] st = st"
| "inner_loop j2len i blo bhi (j # js) (newj2len, (besti, bestj, bestsize)) =
     (if j < blo then inner_loop j2len i blo bhi js (newj2len, (besti, bestj, bestsize))
      else if j \<ge> bhi then (newj2len, (besti, bestj, bestsize))
      else (let k = (if j = 0 then 0 else case j2len (j - 1) of None \<Rightarrow> 0 | Some v \<Rightarrow> v) + 1
            in inner_loop j2len i blo bhi js
                 (newj2len(j \<mapsto> k),
                  if k > bestsize then (i + 1 - k, j + 1 - k, k) else (besti, bestj, bestsize))))"

text \<open>
  One round of the outer loop \<open>for i in range(alo, ahi)\<close>, with \<open>b2j.get(a[i], nothing)\<close>
  and a fresh \<open>newj2len\<close>, and the loop itself from \<open>besti, bestj, bestsize = alo, blo, 0\<close>.
\<close>

definition outer_step :: "string \<Rightarrow> (char \<rightharpoonup> nat list) \<Rightarrow> nat \<Rightarrow> nat \<Rightarrow> nat \<Rightarrow>
    (nat \<rightharpoonup> nat) \<times> match \<Rightarrow> (nat \<rightharpoonup> nat) \<times> match" where
  "outer_step a b2j blo bhi i st =
     inner_loop (fst st) i blo bhi (case b2j (a ! i) of None \<Rightarrow> [] | Some js \<Rightarrow> js)
       (Map.empty, snd st)"

definition main_loop :: "string \<Rightarrow> (char \<rightharpoonup> nat list) \<Rightarrow> nat \<Rightarrow> nat \<Rightarrow> nat \<Rightarrow> nat \<Rightarrow> match" where
  "main_loop a b2j alo ahi blo bhi =
     snd (fold (outer_step a b2j blo bhi) [alo..<ahi] (Map.empty, (alo, blo, 0)))"

text \<open>
  The two loops that extend the best match by equal elements to the left and to the right.
  Their tests \<open>not isbjunk(...)\<close> are true, as \<open>bjunk\<close> is empty; for the same reason the
  two loops after them, which absorb junk, never run and are left out.
\<close>

function extend_left :: "string \<Rightarrow> string \<Rightarrow> nat \<Rightarrow> nat \<Rightarrow> match \<Rightarrow> match" where
  "extend_left a b alo blo (besti, bestj, bestsize) =
     (if besti > alo \<and> bestj > blo \<and> a ! (besti - 1) = b ! (bestj - 1)
      then extend_left a b alo blo (besti - 1, bestj - 1, bestsize + 1)
      else (besti, bestj, bestsize))"
  by pat_completeness auto
termination
  by (relation "measure (\<lambda>(a, b, alo, blo, besti, bestj, bestsize). besti)") auto

function extend_right :: "string \<Rightarrow> string \<Rightarrow> nat \<Rightarrow> nat \<Rightarrow> match \<Rightarrow> match" where
  "extend_right a b ahi bhi (besti, bestj, bestsize) =
     (if besti + bestsize < ahi \<and> bestj + bestsize < bhi \<and>
         a ! (besti + bestsize) = b ! (bestj + bestsize)
      then extend_right a b ahi bhi (besti, bestj, bestsize + 1)
      else (besti, bestj, bestsize))"
  by pat_completeness auto
termination
  by (relation "measure (\<lambda>(a, b, ahi, bhi, besti, bestj, bestsize). ahi - (besti + bestsize))") auto

declare extend_left.simps [simp del] extend_right.simps [simp del]

text \<open>\<open>find_longest_match(alo, ahi, blo, bhi)\<close>.\<close>

definition find_longest_match :: "string \<Rightarrow> string \<Rightarrow> (char \<rightharpoonup> nat list) \<Rightarrow>
    nat \<Rightarrow> nat \<Rightarrow> nat \<Rightarrow> nat \<Rightarrow> match" where
  "find_longest_match a b b2j alo ahi blo bhi =
     extend_right a b ahi bhi (extend_left a b alo blo (main_loop a b2j alo ahi blo bhi))"


text \<open>
  The block that \<open>find_longest_match\<close> returns lies inside \<open>a[alo:ahi]\<close>; the loop of
  \<open>get_matching_blocks\<close> terminates because of that.
\<close>

definition bounded_state :: "nat \<Rightarrow> nat \<Rightarrow> (nat \<rightharpoonup> nat) \<times> match \<Rightarrow> bool" where
  "bounded_state alo i st =
     ((\<forall>j v. fst st j = Some v \<longrightarrow> v \<le> i - alo) \<and> alo \<le> fst (snd st) \<and>
      fst (snd st) + snd (snd (snd st)) \<le> i)"

lemma inner_loop_bounded:
  assumes "\<forall>j v. j2len j = Some v \<longrightarrow> v \<le> i - alo" "alo \<le> i"
  shows "bounded_state alo (Suc i) st \<Longrightarrow> bounded_state alo (Suc i) (inner_loop j2len i blo bhi js st)"
proof (induction js arbitrary: st)
  case Nil
  then show ?case by simp
next
  case (Cons j js)
  obtain m besti bestj bestsize where st: "st = (m, (besti, bestj, bestsize))"
    by (cases st) auto
  define k where "k = (if j = 0 then 0 else case j2len (j - 1) of None \<Rightarrow> 0 | Some v \<Rightarrow> v) + 1"
  have "(case j2len (j - 1) of None \<Rightarrow> 0 | Some v \<Rightarrow> v) \<le> i - alo"
    using assms(1) by (cases "j2len (j - 1)") auto
  then have kb: "k \<le> Suc i - alo" "1 \<le> k"
    using assms(2) by (auto simp: k_def)
  have step: "bounded_state alo (Suc i)
          (m(j \<mapsto> k), if k > bestsize then (i + 1 - k, j + 1 - k, k) else (besti, bestj, bestsize))"
    using Cons.prems kb assms(2) by (auto simp: bounded_state_def st)
  show ?case
  proof (cases "j < blo")
    case True
    with Cons.IH [OF Cons.prems] show ?thesis by (simp add: st)
  next
    case False
    show ?thesis
    proof (cases "j \<ge> bhi")
      case True
      with False Cons.prems show ?thesis by (simp add: st)
    next
      case nb: False
      have "inner_loop j2len i blo bhi (j # js) st =
            inner_loop j2len i blo bhi js
              (m(j \<mapsto> k),
               if k > bestsize then (i + 1 - k, j + 1 - k, k) else (besti, bestj, bestsize))"
        using False nb unfolding st k_def by (simp add: Let_def)
      with Cons.IH [OF step] show ?thesis by simp
    qed
  qed
qed

lemma outer_step_bounded:
  assumes "bounded_state alo i st" "alo \<le> i"
  shows "bounded_state alo (Suc i) (outer_step a b2j blo bhi i st)"
proof -
  have "bounded_state alo (Suc i) (Map.empty, snd st)"
    using assms by (simp add: bounded_state_def)
  moreover have "\<forall>j v. fst st j = Some v \<longrightarrow> v \<le> i - alo"
    using assms(1) by (simp add: bounded_state_def)
  ultimately show ?thesis
    unfolding outer_step_def using assms(2) by (intro inner_loop_bounded)
qed

lemma main_fold_bounded:
  "bounded_state alo (alo + d)
     (fold (outer_step a b2j blo bhi) [alo..<alo + d] (Map.empty, (alo, blo, 0)))"
proof (induction d)
  case 0
  then show ?case by (simp add: bounded_state_def)
next
  case (Suc d)
  then show ?case by (simp add: outer_step_bounded)
qed

lemma main_loop_bounds:
  assumes "alo \<le> ahi" "main_loop a b2j alo ahi blo bhi = (i, j, k)"
  shows "alo \<le> i \<and> i + k \<le> ahi"
proof -
  from assms(1) obtain d where d: "ahi = alo + d" by (auto simp: le_iff_add)
  from main_fold_bounded [of alo d a b2j blo bhi] assms(2)
  show ?thesis by (simp add: main_loop_def d bounded_state_def)
qed

lemma extend_left_bounds:
  "extend_left a b alo blo m = (i, j, k) \<Longrightarrow> alo \<le> fst m \<Longrightarrow>
   alo \<le> i \<and> i + k = fst m + snd (snd m)"
proof (induction a b alo blo m rule: extend_left.induct)
  case (1 a b alo blo besti bestj bestsize)
  show ?case
  proof (cases "besti > alo \<and> bestj > blo \<and> a ! (besti - 1) = b ! (bestj - 1)")
    case True
    with 1 show ?thesis by (auto simp add: extend_left.simps [of a b alo blo besti])
  next
    case False
    with 1 show ?thesis by (auto simp add: extend_left.simps [of a b alo blo besti])
  qed
qed

lemma extend_right_bounds:
  "extend_right a b ahi bhi m = (i, j, k) \<Longrightarrow> fst m + snd (snd m) \<le> ahi \<Longrightarrow>
   i = fst m \<and> i + k \<le> ahi"
proof (induction a b ahi bhi m rule: extend_right.induct)
  case (1 a b ahi bhi besti bestj bestsize)
  show ?case
  proof (cases "besti + bestsize < ahi \<and> bestj + bestsize < bhi \<and>
         a ! (besti + bestsize) = b ! (bestj + bestsize)")
    case True
    with 1 show ?thesis by (auto simp add: extend_right.simps [of a b ahi bhi besti])
  next
    case False
    with 1 show ?thesis by (auto simp add: extend_right.simps [of a b ahi bhi besti])
  qed
qed

lemma find_longest_match_bounds:
  assumes "alo \<le> ahi" "find_longest_match a b b2j alo ahi blo bhi = (i, j, k)"
  shows "alo \<le> i \<and> i + k \<le> ahi"
proof -
  obtain i0 j0 k0 where m: "main_loop a b2j alo ahi blo bhi = (i0, j0, k0)"
    by (cases "main_loop a b2j alo ahi blo bhi") auto
  obtain i1 j1 k1 where l: "extend_left a b alo blo (i0, j0, k0) = (i1, j1, k1)"
    by (cases "extend_left a b alo blo (i0, j0, k0)") auto
  from main_loop_bounds [OF assms(1) m] have b0: "alo \<le> i0" "i0 + k0 \<le> ahi" by auto
  from extend_left_bounds [OF l] b0 have b1: "alo \<le> i1" "i1 + k1 \<le> ahi" by auto
  from assms(2) have "extend_right a b ahi bhi (i1, j1, k1) = (i, j, k)"
    by (simp add: find_longest_match_def m l)
  from extend_right_bounds [OF this] b1 show ?thesis by auto
qed

lemma find_longest_match_empty_range:
  assumes "\<not> alo \<le> ahi"
  shows "find_longest_match a b b2j alo ahi blo bhi = (alo, blo, 0)"
  using assms by (simp add: find_longest_match_def main_loop_def extend_left.simps [of a b alo blo alo]
      extend_right.simps [of a b ahi bhi alo])

text \<open>The measure of the queue of \<open>get_matching_blocks\<close>.\<close>

definition queue_size :: "(nat \<times> nat \<times> nat \<times> nat) list \<Rightarrow> nat" where
  "queue_size queue = (\<Sum>(alo, ahi, blo, bhi)\<leftarrow>queue. 2 * (ahi - alo) + 1)"

lemma queue_size_simps:
  "queue_size [] = 0"
  "queue_size ((alo, ahi, blo, bhi) # queue) = 2 * (ahi - alo) + 1 + queue_size queue"
  "queue_size (q1 @ q2) = queue_size q1 + queue_size q2"
  by (simp_all add: queue_size_def)

lemma queue_size_decreases:
  assumes "find_longest_match a b b2j alo ahi blo bhi = (i, j, k)" "k \<noteq> 0"
  shows "queue_size ((if i + k < ahi \<and> j + k < bhi then [(i + k, ahi, j + k, bhi)] else []) @
           (if alo < i \<and> blo < j then [(alo, i, blo, j)] else []) @ queue)
         < queue_size ((alo, ahi, blo, bhi) # queue)"
proof (cases "alo \<le> ahi")
  case True
  from find_longest_match_bounds [OF True assms(1)] have "alo \<le> i" "i + k \<le> ahi" by auto
  with assms(2) show ?thesis by (auto simp add: queue_size_simps)
next
  case False
  from find_longest_match_empty_range [OF False, of a b b2j blo bhi] assms show ?thesis by simp
qed

text \<open>
  The loop of \<open>get_matching_blocks\<close>.  \<open>queue.pop()\<close> takes the element appended last, so the
  queue is a stack, its top the head of the list; the part to the left of the match is
  appended first and the part to the right second.
\<close>

function matching_blocks_loop :: "string \<Rightarrow> string \<Rightarrow> (char \<rightharpoonup> nat list) \<Rightarrow>
    (nat \<times> nat \<times> nat \<times> nat) list \<Rightarrow> match list \<Rightarrow> match list" where
  "matching_blocks_loop a b b2j [] blocks = blocks"
| "matching_blocks_loop a b b2j ((alo, ahi, blo, bhi) # queue) blocks =
     (let x = find_longest_match a b b2j alo ahi blo bhi;
          i = fst x; j = fst (snd x); k = snd (snd x)
      in if k \<noteq> 0
         then matching_blocks_loop a b b2j
                ((if i + k < ahi \<and> j + k < bhi then [(i + k, ahi, j + k, bhi)] else []) @
                 (if alo < i \<and> blo < j then [(alo, i, blo, j)] else []) @ queue)
                (blocks @ [x])
         else matching_blocks_loop a b b2j queue blocks)"
  by pat_completeness auto
termination
proof (relation "measure (\<lambda>(a, b, b2j, queue, blocks). queue_size queue)", goal_cases)
  case 1
  then show ?case by simp
next
  case (2 a b b2j alo ahi blo bhi queue blocks x i j k)
  then have "find_longest_match a b b2j alo ahi blo bhi = (i, j, k)" "k \<noteq> 0"
    by simp_all
  from queue_size_decreases [OF this] show ?case by simp
next
  case 3
  then show ?case by (simp add: queue_size_simps)
qed

text \<open>
  \<open>get_matching_blocks\<close> goes on to sort the blocks, to merge adjacent ones and to append the
  sentinel \<open>(la, lb, 0)\<close>; none of these changes the sum of the sizes, which is all that
  \<open>ratio\<close> reads, so the model stops at the list the loop produces.
\<close>

definition get_matching_blocks :: "string \<Rightarrow> string \<Rightarrow> match list" where
  "get_matching_blocks a b =
     matching_blocks_loop a b (chain_b b) [(0, length a, 0, length b)] []"

text \<open>\<open>ratio\<close>, with \<open>_calculate_ratio(matches, length)\<close> written out.\<close>

definition ratio :: "string \<Rightarrow> string \<Rightarrow> rat" where
  "ratio a b =
     (let matches = (\<Sum>(i, j, k)\<leftarrow>get_matching_blocks a b. k);
          length = length a + length b
      in if length \<noteq> 0 then 2 * of_nat matches / of_nat length else 1)"

section \<open>The record linker (\<open>data_merger.py\<close>)\<close>

text \<open>
  \<open>str.lower()\<close> on the code points below 256: the ASCII capitals and the capitals
  \<open>U+00C0\<close> to \<open>U+00DE\<close> except the multiplication sign \<open>U+00D7\<close> move up by 32.
\<close>

definition lower_char :: "char \<Rightarrow> char" where
  "lower_char c = (let n = (of_char c :: nat) in
     if (65 \<le> n \<and> n \<le> 90) \<or> (192 \<le> n \<and> n \<le> 222 \<and> n \<noteq> 215) then char_of (n + 32) else c)"

definition lower :: "string \<Rightarrow> string" where
  "lower s = map lower_char s"

text \<open>
  \<open>string_similarity\<close>: 0 unless both arguments are strings, the ratio of the lowered strings
  otherwise.
\<close>

definition string_similarity :: "cell \<Rightarrow> cell \<Rightarrow> rat" where
  "string_similarity a b =
     (case (a, b) of
        (Str x, Str y) \<Rightarrow> ratio (lower x) (lower y)
      | _ \<Rightarrow> 0)"

text \<open>
  \<open>clean_game_title\<close>: a non-string is returned as it is; \<open>re.sub(r'^\d+\.\s*', '', title)\<close>
  deletes one leading run of digits with the period and the white space after it, when the
  title starts with one; then \<open>strip()\<close>.
\<close>

definition strip_numbering :: "string \<Rightarrow> string" where
  "strip_numbering s =
     (let ds = takeWhile is_digit s; r = dropWhile is_digit s in
      if ds \<noteq> [] \<and> r \<noteq> [] \<and> hd r = CHR ''.'' then dropWhile is_space (tl r) else s)"

definition clean_game_title :: "cell \<Rightarrow> cell" where
  "clean_game_title title =
     (case title of Str s \<Rightarrow> Str (strip (strip_numbering s)) | _ \<Rightarrow> title)"

text \<open>
  The two input tables.  A row carries the columns that \<open>merge_datasets\<close> reads, under the
  names the scrapers give them; further columns of the input are never read.  The cells are
  dynamically typed, but for two columns: \<open>metascore\<close> is numeric, as
  \<open>clean_metacritic_data\<close> leaves it (a number or \<open>NaN\<close>), and \<open>review_summary\<close> is a string
  or missing.
\<close>

record metacritic_game =
  mc_title :: cell
  mc_url :: cell
  mc_metascore :: "rat option"
  mc_platform :: cell
  mc_release_date :: cell
  mc_developer :: cell
  mc_publisher :: cell
  mc_genres :: cell

record steam_game =
  st_title :: cell
  st_app_url :: cell
  st_price :: cell
  st_discount :: cell
  st_review_summary :: "string option"
  st_review_count :: cell
  st_release_date :: cell
  st_developer :: cell
  st_publisher :: cell
  st_tags :: cell

text \<open>
  The output table.  A row is the dictionary it was built from, in the order of its keys; a
  data frame has its column labels and its rows, and a row has the missing value in every
  column it has no key for.
\<close>

type_synonym row = "(string \<times> cell) list"

record dataframe =
  columns :: "string list"
  rows :: "row list"

datatype py_error = KeyError string

definition empty_frame :: dataframe where
  "empty_frame = \<lparr>columns = [], rows = []\<rparr>"

definition cell_of :: "row \<Rightarrow> string \<Rightarrow> cell" where
  "cell_of r c = (case map_of r c of Some v \<Rightarrow> v | None \<Rightarrow> Null)"

text \<open>
  \<open>pd.concat([merged_df, pd.DataFrame([r])], ignore_index=True)\<close>: the row is appended and
  its keys that are not columns yet become columns, after the present ones.
\<close>

definition concat_row :: "dataframe \<Rightarrow> row \<Rightarrow> dataframe" where
  "concat_row df r =
     \<lparr>columns = columns df @ filter (\<lambda>c. c \<notin> set (columns df)) (map fst r),
      rows = rows df @ [r]\<rparr>"

text \<open>\<open>df[c]\<close>: the cells of a column, \<open>KeyError\<close> when the frame has no such column.\<close>

definition get_column :: "dataframe \<Rightarrow> string \<Rightarrow> py_error + cell list" where
  "get_column df c =
     (if c \<in> set (columns df) then Inr (map (\<lambda>r. cell_of r c) (rows df)) else Inl (KeyError c))"

text \<open>An assignment to one cell of a row, and a new column label for the frame.\<close>

definition set_cell :: "string \<Rightarrow> cell \<Rightarrow> row \<Rightarrow> row" where
  "set_cell c v r =
     (if c \<in> set (map fst r) then map (\<lambda>(k, x). if k = c then (k, v) else (k, x)) r
      else r @ [(c, v)])"

definition add_column :: "string \<Rightarrow> dataframe \<Rightarrow> dataframe" where
  "add_column c df = (if c \<in> set (columns df) then df else df\<lparr>columns := columns df @ [c]\<rparr>)"

text \<open>
  Lines 40 to 45: the titles are cleaned and the rows whose title is missing or empty are
  dropped (\<open>notna() & (title != '')\<close>).
\<close>

definition has_title :: "cell \<Rightarrow> bool" where
  "has_title t = (notna t \<and> t \<noteq> Str [])"

definition prepare_metacritic :: "metacritic_game list \<Rightarrow> metacritic_game list" where
  "prepare_metacritic metacritic_df =
     filter (\<lambda>g. has_title (mc_title g))
       (map (\<lambda>g. g\<lparr>mc_title := clean_game_title (mc_title g)\<rparr>) metacritic_df)"

definition prepare_steam :: "steam_game list \<Rightarrow> steam_game list" where
  "prepare_steam steam_df =
     filter (\<lambda>g. has_title (st_title g))
       (map (\<lambda>g. g\<lparr>st_title := clean_game_title (st_title g)\<rparr>) steam_df)"

text \<open>
  Lines 87 to 97: the score of a pair.  The developers count when both are strings other
  than \<open>N/A\<close>.
\<close>

definition match_score :: "metacritic_game \<Rightarrow> steam_game \<Rightarrow> rat" where
  "match_score mc_game steam_game =
     (let title_sim = string_similarity (mc_title mc_game) (st_title steam_game) in
      if is_str (mc_developer mc_game) \<and> is_str (st_developer steam_game) \<and>
         mc_developer mc_game \<noteq> Str ''N/A'' \<and> st_developer steam_game \<noteq> Str ''N/A''
      then title_sim * (7 / 10) +
           string_similarity (mc_developer mc_game) (st_developer steam_game) * (3 / 10)
      else title_sim)"

text \<open>
  Lines 77 to 102: the scan of the Steam rows for one Metacritic row, from
  \<open>best_match = None\<close> and \<open>best_score = 0\<close>; a row replaces the best one when its score is
  above the best score so far and above 0.7.
\<close>

definition scan_step :: "metacritic_game \<Rightarrow> steam_game \<Rightarrow> steam_game option \<times> rat \<Rightarrow>
    steam_game option \<times> rat" where
  "scan_step mc_game steam_game st =
     (if match_score mc_game steam_game > snd st \<and> match_score mc_game steam_game > 7 / 10
      then (Some steam_game, match_score mc_game steam_game) else st)"

definition find_best_match :: "metacritic_game \<Rightarrow> steam_game list \<Rightarrow> steam_game option \<times> rat" where
  "find_best_match mc_game steam = fold (scan_step mc_game) steam (None, 0)"

definition cell_of_num :: "rat option \<Rightarrow> cell" where
  "cell_of_num x = (case x of Some q \<Rightarrow> Num q | None \<Rightarrow> Null)"

definition cell_of_str :: "string option \<Rightarrow> cell" where
  "cell_of_str x = (case x of Some s \<Rightarrow> Str s | None \<Rightarrow> Null)"

text \<open>The three dictionaries of lines 107, 136 and 165.\<close>

definition merged_row :: "metacritic_game \<Rightarrow> steam_game \<Rightarrow> rat \<Rightarrow> row" where
  "merged_row mc_game best_match best_score =
     [(''game_title'', mc_title mc_game),
      (''metacritic_url'', mc_url mc_game),
      (''metascore'', cell_of_num (mc_metascore mc_game)),
      (''platform'', mc_platform mc_game),
      (''release_date'', mc_release_date mc_game),
      (''developer'', mc_developer mc_game),
      (''publisher'', mc_publisher mc_game),
      (''genres'', mc_genres mc_game),
      (''steam_url'', st_app_url best_match),
      (''price'', st_price best_match),
      (''discount'', st_discount best_match),
      (''steam_review_summary'', cell_of_str (st_review_summary best_match)),
      (''steam_review_count'', st_review_count best_match),
      (''steam_release_date'', st_release_date best_match),
      (''steam_developer'', st_developer best_match),
      (''steam_publisher'', st_publisher best_match),
      (''steam_tags'', st_tags best_match),
      (''match_confidence'', Num best_score),
      (''is_matched'', Bool True)]"

definition unmatched_mc_row :: "metacritic_game \<Rightarrow> row" where
  "unmatched_mc_row mc_game =
     [(''game_title'', mc_title mc_game),
      (''metacritic_url'', mc_url mc_game),
      (''metascore'', cell_of_num (mc_metascore mc_game)),
      (''platform'', mc_platform mc_game),
      (''release_date'', mc_release_date mc_game),
      (''developer'', mc_developer mc_game),
      (''publisher'', mc_publisher mc_game),
      (''genres'', mc_genres mc_game),
      (''steam_url'', Null),
      (''price'', Null),
      (''discount'', Null),
      (''steam_review_summary'', Null),
      (''steam_review_count'', Null),
      (''steam_release_date'', Null),
      (''steam_developer'', Null),
      (''steam_publisher'', Null),
      (''steam_tags'', Null),
      (''match_confidence'', Num 0),
      (''is_matched'', Bool False)]"

definition unmatched_steam_row :: "steam_game \<Rightarrow> row" where
  "unmatched_steam_row steam_game =
     [(''game_title'', st_title steam_game),
      (''metacritic_url'', Null),
      (''metascore'', Null),
      (''platform'', Null),
      (''release_date'', Null),
      (''developer'', Null),
      (''publisher'', Null),
      (''genres'', Null),
      (''steam_url'', st_app_url steam_game),
      (''price'', st_price steam_game),
      (''discount'', st_discount steam_game),
      (''steam_review_summary'', cell_of_str (st_review_summary steam_game)),
      (''steam_review_count'', st_review_count steam_game),
      (''steam_release_date'', st_release_date steam_game),
      (''steam_developer'', st_developer steam_game),
      (''steam_publisher'', st_publisher steam_game),
      (''steam_tags'', st_tags steam_game),
      (''match_confidence'', Num 0),
      (''is_matched'', Bool False)]"

text \<open>
  Lines 76 to 128: one matched row is appended for every Metacritic row that found a match.
\<close>

definition add_match :: "steam_game list \<Rightarrow> metacritic_game \<Rightarrow> dataframe \<Rightarrow> dataframe" where
  "add_match steam mc_game merged_df =
     (case find_best_match mc_game steam of
        (Some best_match, best_score) \<Rightarrow>
          concat_row merged_df (merged_row mc_game best_match best_score)
      | (None, _) \<Rightarrow> merged_df)"

definition matched_frame :: "metacritic_game list \<Rightarrow> steam_game list \<Rightarrow> dataframe" where
  "matched_frame metacritic steam = fold (add_match steam) metacritic empty_frame"

text \<open>
  Lines 192 to 206.  \<open>review_digits\<close> is \<open>str.extract(r'(\d+)')[0]\<close>, the first run of digits
  of the review summary, and \<open>steam_review_score\<close> its value (\<open>pd.to_numeric\<close>), missing when
  the summary has no digit.  The mask selects the matched rows with a metascore and a review
  summary; when it selects a row at all, the column \<open>steam_review_score\<close> is added and, on the
  rows selected, \<open>combined_score\<close> is \<open>metascore * 0.6 + steam_review_score * 0.4\<close>, which
  is missing when \<open>steam_review_score\<close> is.  (\<open>pd.to_numeric\<close> on the metascore, line 197,
  leaves a numeric column as it is.)
\<close>

definition review_digits :: "string \<Rightarrow> string option" where
  "review_digits s =
     (let r = dropWhile (\<lambda>c. \<not> is_digit c) s in
      if r = [] then None else Some (takeWhile is_digit r))"

definition steam_review_score :: "cell \<Rightarrow> rat option" where
  "steam_review_score summary =
     (case summary of
        Str s \<Rightarrow> (case review_digits s of Some ds \<Rightarrow> Some (of_nat (digits_val ds)) | None \<Rightarrow> None)
      | _ \<Rightarrow> None)"

definition in_mask :: "row \<Rightarrow> bool" where
  "in_mask r = (cell_of r ''is_matched'' = Bool True \<and> notna (cell_of r ''metascore'') \<and>
     notna (cell_of r ''steam_review_summary''))"

definition score_row :: "row \<Rightarrow> row" where
  "score_row r =
     (if in_mask r
      then (let review = steam_review_score (cell_of r ''steam_review_summary'');
                r' = set_cell ''steam_review_score'' (cell_of_num review) r
            in set_cell ''combined_score''
                 (case (cell_of r ''metascore'', review) of
                    (Num m, Some s) \<Rightarrow> Num (m * (6 / 10) + s * (4 / 10))
                  | _ \<Rightarrow> Null) r')
      else r)"

definition add_combined_score :: "dataframe \<Rightarrow> dataframe" where
  "add_combined_score merged_df =
     (let df = add_column ''combined_score'' merged_df;
          df = df\<lparr>rows := map (set_cell ''combined_score'' Null) (rows df)\<rparr>
      in if list_ex in_mask (rows df)
         then (add_column ''steam_review_score'' df)\<lparr>rows := map score_row (rows df)\<rparr>
         else df)"

text \<open>
  \<open>merge_datasets\<close>.  \<open>set(merged_df['game_title'])\<close> on line 131 raises \<open>KeyError\<close> when no
  row has been appended, since \<open>pd.DataFrame()\<close> has no column.  The rows without a match are
  chosen by their title (\<open>isin\<close>): a Metacritic row is appended when its title is not that of
  a matched row, a Steam row when its title is no \<open>game_title\<close> of the table so far.
\<close>

definition merge_datasets :: "metacritic_game list \<Rightarrow> steam_game list \<Rightarrow> py_error + dataframe" where
  "merge_datasets metacritic_df steam_df =
     (let metacritic = prepare_metacritic metacritic_df;
          steam = prepare_steam steam_df;
          merged_df = matched_frame metacritic steam
      in case get_column merged_df ''game_title'' of
           Inl e \<Rightarrow> Inl e
         | Inr matched_mc_titles \<Rightarrow>
             (let unmatched_mc = filter (\<lambda>g. mc_title g \<notin> set matched_mc_titles) metacritic;
                  merged_df = fold (\<lambda>g df. concat_row df (unmatched_mc_row g)) unmatched_mc merged_df
              in case get_column merged_df ''game_title'' of
                   Inl e \<Rightarrow> Inl e
                 | Inr matched_steam_titles \<Rightarrow>
                     (let unmatched_steam =
                            filter (\<lambda>g. st_title g \<notin> set matched_steam_titles) steam;
                          merged_df = fold (\<lambda>g df. concat_row df (unmatched_steam_row g))
                                        unmatched_steam merged_df;
                          merged_df = merged_df\<lparr>rows :=
                              filter (\<lambda>r. has_title (cell_of r ''game_title'')) (rows merged_df)\<rparr>
                      in Inr (add_combined_score merged_df))))"

section \<open>The validation step (\<open>ops.py\<close>)\<close>

text \<open>
  \<open>validate_data\<close> reads the file that \<open>save_merged_data\<close> wrote and checks it.  The model
  takes the frame that \<open>pd.read_csv\<close> returns, and \<open>min_rows\<close> and \<open>min_matched\<close> of the
  configuration (5 and 3 by default).  A file written by \<open>to_csv\<close> exists and holds at least
  the header line, so the first check (the file exists and is not empty) passes and is left
  out.  \<open>df.get('is_matched', False)\<close> is \<open>False\<close> for a frame without that column, and
  \<open>df[False == True]\<close> then raises \<open>KeyError\<close>.
\<close>

definition required_columns :: "string list" where
  "required_columns =
     [''mc_title'', ''mc_metascore'', ''mc_genres'', ''mc_developer'',
      ''steam_title'', ''steam_price_numeric'', ''steam_tags'']"

definition validate_data :: "int \<Rightarrow> int \<Rightarrow> dataframe \<Rightarrow> py_error + bool" where
  "validate_data min_rows min_matched df =
     (if int (length (rows df)) < min_rows then Inr False
      else if ''is_matched'' \<notin> set (columns df) then Inl (KeyError ''False'')
      else (let matched_games = filter (\<lambda>r. cell_of r ''is_matched'' = Bool True) (rows df) in
            if int (length matched_games) < min_matched then Inr False
            else (let missing_columns = filter (\<lambda>col. col \<notin> set (columns df)) required_columns in
                  if missing_columns \<noteq> [] then Inr False else Inr True)))"

section \<open>Example tables\<close>

text \<open>
  Rows for the concrete inputs that the theorems below evaluate: every column missing but
  those given.
\<close>

definition blank_metacritic :: metacritic_game where
  "blank_metacritic = \<lparr>mc_title = Null, mc_url = Null, mc_metascore = None, mc_platform = Null,
     mc_release_date = Null, mc_developer = Null, mc_publisher = Null, mc_genres = Null\<rparr>"

definition blank_steam :: steam_game where
  "blank_steam = \<lparr>st_title = Null, st_app_url = Null, st_price = Null, st_discount = Null,
     st_review_summary = None, st_review_count = Null, st_release_date = Null,
     st_developer = Null, st_publisher = Null, st_tags = Null\<rparr>"

definition game_a_left :: metacritic_game where
  "game_a_left = blank_metacritic\<lparr>mc_title := Str ''Game A'', mc_developer := Str ''Dev1'',
     mc_metascore := Some 80\<rparr>"

definition game_a_right :: steam_game where
  "game_a_right = blank_steam\<lparr>st_title := Str ''Game A'', st_developer := Str ''Dev1'',
     st_review_summary := Some ''Very Positive''\<rparr>"

definition halo2_left :: metacritic_game where
  "halo2_left = blank_metacritic\<lparr>mc_title := Str ''Halo 2'', mc_url := Str ''m1''\<rparr>"

definition halo_right :: steam_game where
  "halo_right = blank_steam\<lparr>st_title := Str ''Halo'', st_app_url := Str ''s1''\<rparr>"

definition halo_left :: metacritic_game where
  "halo_left = blank_metacritic\<lparr>mc_title := Str ''Halo'', mc_url := Str ''m0''\<rparr>"

definition halo_bungie_left :: metacritic_game where
  "halo_bungie_left = blank_metacritic\<lparr>mc_title := Str ''Halo'', mc_developer := Str ''Bungie''\<rparr>"

definition halo_other_right :: steam_game where
  "halo_other_right = blank_steam\<lparr>st_title := Str ''Halo'', st_developer := Str ''Zzz''\<rparr>"

definition doom_left :: metacritic_game where
  "doom_left = blank_metacritic\<lparr>mc_title := Str ''Doom'', mc_url := Str ''m2''\<rparr>"

definition quake_right :: steam_game where
  "quake_right = blank_steam\<lparr>st_title := Str ''Quake'', st_app_url := Str ''s2''\<rparr>"

text \<open>
  A record of the input appears in a row of the output when the row has the record's
  values in the columns of its side: a Metacritic record in the title and the seven
  Metacritic columns, a Steam record in the nine Steam columns (a matched row carries the
  Metacritic title only).
\<close>

definition mc_cells :: "row \<Rightarrow> cell list" where
  "mc_cells r = map (cell_of r) [''game_title'', ''metacritic_url'', ''metascore'', ''platform'',
     ''release_date'', ''developer'', ''publisher'', ''genres'']"

definition mc_fields :: "metacritic_game \<Rightarrow> cell list" where
  "mc_fields g = [mc_title g, mc_url g, cell_of_num (mc_metascore g), mc_platform g,
     mc_release_date g, mc_developer g, mc_publisher g, mc_genres g]"

definition steam_cells :: "row \<Rightarrow> cell list" where
  "steam_cells r = map (cell_of r) [''steam_url'', ''price'', ''discount'',
     ''steam_review_summary'', ''steam_review_count'', ''steam_release_date'',
     ''steam_developer'', ''steam_publisher'', ''steam_tags'']"

definition steam_fields :: "steam_game \<Rightarrow> cell list" where
  "steam_fields s = [st_app_url s, st_price s, st_discount s, cell_of_str (st_review_summary s),
     st_review_count s, st_release_date s, st_developer s, st_publisher s, st_tags s]"

definition metacritic_occurrences :: "dataframe \<Rightarrow> metacritic_game \<Rightarrow> nat" where
  "metacritic_occurrences df g = length (filter (\<lambda>r. mc_cells r = mc_fields g) (rows df))"

definition steam_occurrences :: "dataframe \<Rightarrow> steam_game \<Rightarrow> nat" where
  "steam_occurrences df s = length (filter (\<lambda>r. steam_cells r = steam_fields s) (rows df))"

section \<open>Properties of the field normaliser\<close>

subsection \<open>Price parsing\<close>

lemma search_price_run:
  assumes "\<forall>c\<in>set p. \<not> is_price_char c" "m \<noteq> []" "\<forall>c\<in>set m. is_price_char c"
    "q = [] \<or> \<not> is_price_char (hd q)"
  shows "search_price (p @ m @ q) = Some m"
proof -
  have d: "dropWhile (\<lambda>c. \<not> is_price_char c) (p @ m @ q) = m @ q"
    using assms(1,2,3) by (cases m) (simp_all add: dropWhile_append3 dropWhile_append)
  have t: "takeWhile is_price_char (m @ q) = m"
    using assms(3,4) by (cases q) (simp_all add: takeWhile_append)
  show ?thesis using assms(2) by (simp add: search_price_def d t)
qed

lemma search_price_none:
  assumes "\<forall>c\<in>set s. \<not> is_price_char c"
  shows "search_price s = None"
  using assms by (simp add: search_price_def)

lemma price_filter_commas:
  assumes "\<forall>c\<in>set m. is_price_char c"
  shows "filter (\<lambda>c. is_digit c \<or> c = CHR ''.'') m = filter (\<lambda>c. c \<noteq> CHR '','') m"
  using assms by (induction m) (auto simp: is_price_char_def is_digit_def)

text \<open>
  Claim C6, as amended.  \<open>_extract_price\<close> maps \<open>Free\<close> to 0.0 and \<open>$19.99\<close> to 19.99; it
  maps \<open>N/A\<close>, like every string that strips to \<open>N/A\<close>, \<open>Free\<close>, \<open>Free to Play\<close> or the
  empty string, to 0.0 (not to null); a non-string gives null; for any other string whose
  stripped form is \<open>p @ m @ q\<close> with \<open>m\<close> the first maximal run of digits, commas and periods,
  the result is \<open>float\<close> of \<open>m\<close> without its commas, null when that does not parse; and
  null when there is no such run.
\<close>

theorem extract_price_tokens_and_numbers:
  "extract_price (Str ''Free'') = Some 0 \<and>
   extract_price (Str ''$19.99'') = Some (1999 / 100) \<and>
   extract_price (Str ''N/A'') = Some 0 \<and>
   extract_price Null = None \<and>
   (strip s \<in> {''N/A'', ''Free'', ''Free to Play'', ''''} \<longrightarrow> extract_price (Str s) = Some 0) \<and>
   (strip s \<notin> {''N/A'', ''Free'', ''Free to Play'', ''''} \<and> strip s = p @ m @ q \<and>
      (\<forall>c\<in>set p. \<not> is_price_char c) \<and> m \<noteq> [] \<and> (\<forall>c\<in>set m. is_price_char c) \<and>
      (q = [] \<or> \<not> is_price_char (hd q))
    \<longrightarrow> extract_price (Str s) = py_float (filter (\<lambda>c. c \<noteq> CHR '','') m)) \<and>
   (strip s \<notin> {''N/A'', ''Free'', ''Free to Play'', ''''} \<and> (\<forall>c\<in>set (strip s). \<not> is_price_char c)
    \<longrightarrow> extract_price (Str s) = None)"
proof -
  have a: "extract_price (Str ''Free'') = Some 0" by code_simp
  have b: "extract_price (Str ''$19.99'') = Some (1999 / 100)" by code_simp
  have c: "extract_price (Str ''N/A'') = Some 0" by code_simp
  have d: "extract_price Null = None" by (simp add: extract_price_def)
  have e: "strip s \<in> {''N/A'', ''Free'', ''Free to Play'', ''''} \<longrightarrow> extract_price (Str s) = Some 0"
    by (auto simp: extract_price_def Let_def)
  have f: "strip s \<notin> {''N/A'', ''Free'', ''Free to Play'', ''''} \<and> strip s = p @ m @ q \<and>
      (\<forall>c\<in>set p. \<not> is_price_char c) \<and> m \<noteq> [] \<and> (\<forall>c\<in>set m. is_price_char c) \<and>
      (q = [] \<or> \<not> is_price_char (hd q))
    \<longrightarrow> extract_price (Str s) = py_float (filter (\<lambda>c. c \<noteq> CHR '','') m)"
  proof (intro impI, elim conjE)
    assume h: "strip s \<notin> {''N/A'', ''Free'', ''Free to Play'', ''''}" "strip s = p @ m @ q"
      "\<forall>c\<in>set p. \<not> is_price_char c" "m \<noteq> []" "\<forall>c\<in>set m. is_price_char c"
      "q = [] \<or> \<not> is_price_char (hd q)"
    have "search_price (strip s) = Some m"
      unfolding h(2) by (rule search_price_run [OF h(3) h(4) h(5) h(6)])
    with h(1) show "extract_price (Str s) = py_float (filter (\<lambda>c. c \<noteq> CHR '','') m)"
      by (simp add: extract_price_def Let_def price_filter_commas [OF h(5)])
  qed
  have g: "strip s \<notin> {''N/A'', ''Free'', ''Free to Play'', ''''} \<and> (\<forall>c\<in>set (strip s). \<not> is_price_char c)
    \<longrightarrow> extract_price (Str s) = None"
    by (simp add: extract_price_def Let_def search_price_none)
  from a b c d e f g show ?thesis by blast
qed

theorem extract_price_tokens_and_numbers_witness:
  "strip '' Free to Play '' \<in> {''N/A'', ''Free'', ''Free to Play'', ''''} \<and>
   extract_price (Str '' Free to Play '') = Some 0 \<and>
   strip '' $1,299.50 USD'' = ''$'' @ ''1,299.50'' @ '' USD'' \<and>
   extract_price (Str '' $1,299.50 USD'') = Some (2599 / 2) \<and>
   extract_price (Str ''1.2.3'') = None \<and>
   extract_price (Str ''TBD'') = None"
proof -
  have s1: "strip '' Free to Play '' = ''Free to Play''" by code_simp
  have s2: "strip '' $1,299.50 USD'' = ''$'' @ ''1,299.50'' @ '' USD''" by code_simp
  have s3: "strip ''1.2.3'' = [] @ ''1.2.3'' @ []" by code_simp
  have s4: "strip ''TBD'' = ''TBD''" by code_simp
  have p2: "py_float (filter (\<lambda>c. c \<noteq> CHR '','') ''1,299.50'') = Some (2599 / 2)" by code_simp
  have p3: "py_float (filter (\<lambda>c. c \<noteq> CHR '','') ''1.2.3'') = None" by code_simp
  have c2: "\<forall>c\<in>set ''1,299.50''. is_price_char c" by code_simp
  have c3: "\<forall>c\<in>set ''1.2.3''. is_price_char c" by code_simp
  have n2: "\<not> is_price_char (hd '' USD'')" "\<forall>c\<in>set ''$''. \<not> is_price_char c" by code_simp+
  have n4: "\<forall>c\<in>set ''TBD''. \<not> is_price_char c" by code_simp
  show ?thesis
    using extract_price_tokens_and_numbers [of "'' Free to Play ''" "[]" "[]" "[]"]
      extract_price_tokens_and_numbers [of "'' $1,299.50 USD''" "''$''" "''1,299.50''" "'' USD''"]
      extract_price_tokens_and_numbers [of "''1.2.3''" "[]" "''1.2.3''" "[]"]
      extract_price_tokens_and_numbers [of "''TBD''" "[]" "[]" "[]"]
      s1 s2 s3 s4 p2 p3 c2 c3 n2 n4
    by simp
qed

text \<open>
  Claim C6 as stated says that \<open>N/A\<close> is mapped to null: the code returns 0.0.
\<close>

theorem extract_price_NA_counterexample:
  "extract_price (Str ''N/A'') \<noteq> None"
  by code_simp

section \<open>Properties of titles and dates\<close>

subsection \<open>Stripping\<close>

lemma strip_fixed:
  assumes "s \<noteq> []" "\<not> is_space (hd s)" "\<not> is_space (last s)"
  shows "strip s = s"
proof -
  from assms(1,2) have a: "dropWhile is_space s = s" by (cases s) simp_all
  from assms(1,3) have "dropWhile is_space (rev s) = rev s"
    by (cases "rev s") (simp_all add: last_rev [symmetric] del: last_rev)
  with a show ?thesis by (simp add: strip_def)
qed

lemma strip_ends:
  assumes "strip s \<noteq> []"
  shows "\<not> is_space (hd (strip s)) \<and> \<not> is_space (last (strip s))"
proof -
  let ?w = "dropWhile is_space s"
  let ?z = "dropWhile is_space (rev ?w)"
  from assms have z: "?z \<noteq> []" by (simp add: strip_def)
  then have h: "\<not> is_space (hd ?z)" by (rule hd_dropWhile)
  from z have w: "?w \<noteq> []" by (metis dropWhile.simps(1) rev.simps(1))
  then have hw: "\<not> is_space (hd ?w)" by (rule hd_dropWhile)
  have "rev ?w = takeWhile is_space (rev ?w) @ ?z" by simp
  then have "last (rev ?w) = last ?z" using z by (metis last_appendR)
  with w have "last ?z = hd ?w" by (simp add: last_rev)
  with hw h z show ?thesis by (simp add: strip_def hd_rev last_rev)
qed

lemma strip_idem: "strip (strip s) = strip s"
proof (cases "strip s = []")
  case True
  then show ?thesis by (simp add: strip_def [of "[]"])
next
  case False
  with strip_ends [OF False] show ?thesis by (intro strip_fixed) simp_all
qed

subsection \<open>Cleaning a title twice\<close>

definition has_numbering :: "string \<Rightarrow> bool" where
  "has_numbering s =
     (takeWhile is_digit s \<noteq> [] \<and> dropWhile is_digit s \<noteq> [] \<and> hd (dropWhile is_digit s) = CHR ''.'')"

lemma clean_twice:
  assumes "clean_game_title (Str s) = Str t" "\<not> has_numbering t"
  shows "clean_game_title (clean_game_title (Str s)) = clean_game_title (Str s)"
proof -
  from assms(1) have t: "t = strip (strip_numbering s)" by (simp add: clean_game_title_def)
  from assms(2) have "strip_numbering t = t"
    by (auto simp: strip_numbering_def has_numbering_def Let_def)
  then have "clean_game_title (Str t) = Str (strip t)" by (simp add: clean_game_title_def)
  also have "strip t = t" unfolding t by (rule strip_idem)
  finally show ?thesis using assms(1) by simp
qed

lemma clean_non_string:
  assumes "\<not> is_str x"
  shows "clean_game_title (clean_game_title x) = clean_game_title x"
  using assms by (cases x) (simp_all add: clean_game_title_def)

subsection \<open>Digits\<close>

lemma digit_char_table:
  "list_all (\<lambda>k. is_digit (digit_char k) \<and> digit_val (digit_char k) = k) [0..<10]"
  by code_simp

lemma digit_char_props:
  assumes "k < 10"
  shows "is_digit (digit_char k)" "digit_val (digit_char k) = k"
proof -
  from assms have "k \<in> set [0..<10]" by simp
  with digit_char_table show "is_digit (digit_char k)" "digit_val (digit_char k) = k"
    unfolding list_all_iff by blast+
qed

lemma digit_table:
  "list_all (\<lambda>c. \<not> is_space c \<and> c \<noteq> CHR ''('' \<and> c \<noteq> CHR ''/'' \<and> c \<noteq> CHR '' '' \<and>
       lower_ascii c = c \<and> digit_char (digit_val c) = c \<and> digit_val c < 10) ''0123456789''"
  by code_simp

lemma is_digit_props:
  assumes "is_digit c"
  shows "\<not> is_space c" "c \<noteq> CHR ''(''" "c \<noteq> CHR ''/''" "c \<noteq> CHR '' ''" "lower_ascii c = c"
    "digit_char (digit_val c) = c" "digit_val c < 10"
proof -
  from assms have "c \<in> set ''0123456789''" by (simp only: is_digit_def)
  with digit_table have "\<not> is_space c \<and> c \<noteq> CHR ''('' \<and> c \<noteq> CHR ''/'' \<and> c \<noteq> CHR '' '' \<and>
       lower_ascii c = c \<and> digit_char (digit_val c) = c \<and> digit_val c < 10"
    unfolding list_all_iff by blast
  then show "\<not> is_space c" "c \<noteq> CHR ''(''" "c \<noteq> CHR ''/''" "c \<noteq> CHR '' ''" "lower_ascii c = c"
    "digit_char (digit_val c) = c" "digit_val c < 10"
    by blast+
qed

lemma digits_of_small: "n < 10 \<Longrightarrow> digits_of n = [digit_char n]"
  by (simp add: digits_of.simps [of n])

lemma digits_of_large: "10 \<le> n \<Longrightarrow> digits_of n = digits_of (n div 10) @ [digit_char (n mod 10)]"
  by (simp add: digits_of.simps [of n])

lemma digits_of_four:
  assumes "1000 \<le> y" "y \<le> 9999"
  shows "digits_of y = [digit_char (y div 1000), digit_char (y div 100 mod 10),
           digit_char (y div 10 mod 10), digit_char (y mod 10)]"
proof -
  have 1: "digits_of y = digits_of (y div 10) @ [digit_char (y mod 10)]"
    using assms by (intro digits_of_large) simp
  have 2: "digits_of (y div 10) = digits_of (y div 100) @ [digit_char (y div 10 mod 10)]"
    using digits_of_large [of "y div 10"] assms by (simp add: div_mult2_eq [symmetric])
  have 3: "digits_of (y div 100) = digits_of (y div 1000) @ [digit_char (y div 100 mod 10)]"
    using digits_of_large [of "y div 100"] assms by (simp add: div_mult2_eq [symmetric])
  have 4: "digits_of (y div 1000) = [digit_char (y div 1000)]"
    using assms by (intro digits_of_small) simp
  show ?thesis by (simp only: 1 2 3 4 append.simps)
qed

lemma length_digits_of_small:
  assumes "y < 1000"
  shows "length (digits_of y) \<le> 3"
proof (cases "y < 10")
  case True
  then show ?thesis by (simp add: digits_of_small)
next
  case False
  then have a: "10 \<le> y" by simp
  show ?thesis
  proof (cases "y div 10 < 10")
    case True
    then show ?thesis by (simp add: digits_of_large [OF a] digits_of_small)
  next
    case False
    then have b: "10 \<le> y div 10" by simp
    from assms have "y div 10 div 10 < 10" by simp
    then show ?thesis
      by (simp add: digits_of_large [OF a] digits_of_large [OF b] digits_of_small)
  qed
qed

lemma digits_val_four:
  "digits_val [a, b, c, d] = 1000 * digit_val a + 100 * digit_val b + 10 * digit_val c + digit_val d"
  by (simp add: digits_val_def)


lemma four_digit_sum:
  "1000 * (y div 1000) + 100 * (y div 100 mod 10) + 10 * (y div 10 mod 10) + y mod 10 = (y :: nat)"
proof -
  define a b c r0 r1 r2 where "a = y div 10" and "b = a div 10" and "c = b div 10"
    and "r0 = y mod 10" and "r1 = a mod 10" and "r2 = b mod 10"
  have e: "y = 10 * a + r0" "a = 10 * b + r1" "b = 10 * c + r2"
    unfolding a_def b_def c_def r0_def r1_def r2_def by simp_all
  have d: "y div 100 = b" "y div 1000 = c"
    unfolding a_def b_def c_def by (simp_all add: div_mult2_eq [symmetric])
  have "1000 * c + 100 * r2 + 10 * r1 + r0 = y"
    using e by linarith
  then show ?thesis
    unfolding d unfolding r0_def r1_def r2_def a_def .
qed

lemma digits_val_of_four:
  assumes "1000 \<le> y" "y \<le> 9999"
  shows "digits_val (digits_of y) = y" "list_all is_digit (digits_of y)" "length (digits_of y) = 4"
proof -
  have k: "y div 1000 < 10" "y div 100 mod 10 < 10" "y div 10 mod 10 < 10" "y mod 10 < 10"
    using assms by simp_all
  have "digits_val (digits_of y) =
      1000 * (y div 1000) + 100 * (y div 100 mod 10) + 10 * (y div 10 mod 10) + y mod 10"
    unfolding digits_of_four [OF assms] digits_val_four
    by (simp only: digit_char_props(2) [OF k(1)] digit_char_props(2) [OF k(2)]
        digit_char_props(2) [OF k(3)] digit_char_props(2) [OF k(4)])
  then show "digits_val (digits_of y) = y" by (simp only: four_digit_sum)
  show "list_all is_digit (digits_of y)"
    unfolding digits_of_four [OF assms]
    by (simp add: digit_char_props(1) [OF k(1)] digit_char_props(1) [OF k(2)]
        digit_char_props(1) [OF k(3)] digit_char_props(1) [OF k(4)])
  show "length (digits_of y) = 4"
    unfolding digits_of_four [OF assms] by simp
qed

subsection \<open>Padded months and days\<close>

definition month_prefix :: "char \<Rightarrow> char \<Rightarrow> bool" where
  "month_prefix a b =
     ((a = CHR ''1'' \<and> (b = CHR ''0'' \<or> b = CHR ''1'' \<or> b = CHR ''2'')) \<or>
      (a = CHR ''0'' \<and> is_nonzero_digit b))"

definition day_prefix :: "char \<Rightarrow> char \<Rightarrow> bool" where
  "day_prefix a b =
     ((a = CHR ''3'' \<and> (b = CHR ''0'' \<or> b = CHR ''1'')) \<or>
      ((a = CHR ''1'' \<or> a = CHR ''2'') \<and> is_digit b) \<or>
      (a = CHR ''0'' \<and> is_nonzero_digit b))"

lemma month_pad_table:
  "list_all (\<lambda>m. case pad2 m of
       [a, b] \<Rightarrow> month_prefix a b \<and> digits_val [a, b] = m \<and> is_digit a \<and> is_digit b
     | _ \<Rightarrow> False) [1..<13]"
  by code_simp

lemma day_pad_table:
  "list_all (\<lambda>d. case pad2 d of
       [a, b] \<Rightarrow> day_prefix a b \<and> digits_val [a, b] = d \<and> is_digit a \<and> is_digit b
     | _ \<Rightarrow> False) [1..<32]"
  by code_simp

lemma month_pad:
  assumes "1 \<le> m" "m \<le> 12"
  obtains a b where "pad2 m = [a, b]" "month_prefix a b" "digits_val [a, b] = m"
    "is_digit a" "is_digit b"
proof -
  from assms have "m \<in> set [1..<13]" by simp
  with month_pad_table have "case pad2 m of
       [a, b] \<Rightarrow> month_prefix a b \<and> digits_val [a, b] = m \<and> is_digit a \<and> is_digit b
     | _ \<Rightarrow> False"
    unfolding list_all_iff by blast
  then show ?thesis
    using that by (auto split: list.splits)
qed

lemma day_pad:
  assumes "1 \<le> d" "d \<le> 31"
  obtains a b where "pad2 d = [a, b]" "day_prefix a b" "digits_val [a, b] = d"
    "is_digit a" "is_digit b"
proof -
  from assms have "d \<in> set [1..<32]" by simp
  with day_pad_table have "case pad2 d of
       [a, b] \<Rightarrow> day_prefix a b \<and> digits_val [a, b] = d \<and> is_digit a \<and> is_digit b
     | _ \<Rightarrow> False"
    unfolding list_all_iff by blast
  then show ?thesis
    using that by (auto split: list.splits)
qed



lemma month_alternatives_head:
  assumes "month_prefix a b"
  shows "\<exists>others. month_alternatives (a # b # rest) = (digits_val [a, b], rest) # others"
proof (cases "a = CHR ''1'' \<and> (b = CHR ''0'' \<or> b = CHR ''1'' \<or> b = CHR ''2'')")
  case True
  then show ?thesis by (simp add: month_alternatives_def)
next
  case False
  with assms have "a = CHR ''0'' \<and> is_nonzero_digit b" unfolding month_prefix_def by blast
  with False show ?thesis by (simp add: month_alternatives_def)
qed

lemma day_alternatives_head:
  assumes "day_prefix a b"
  shows "\<exists>others. day_alternatives (a # b # rest) = (digits_val [a, b], rest) # others"
proof (cases "a = CHR ''3'' \<and> (b = CHR ''0'' \<or> b = CHR ''1'')")
  case True
  then show ?thesis by (simp add: day_alternatives_def)
next
  case n3: False
  show ?thesis
  proof (cases "(a = CHR ''1'' \<or> a = CHR ''2'') \<and> is_digit b")
    case True
    with n3 show ?thesis by (simp add: day_alternatives_def)
  next
    case False
    with n3 assms have "a = CHR ''0'' \<and> is_nonzero_digit b" unfolding day_prefix_def by blast
    with n3 False show ?thesis by (simp add: day_alternatives_def)
  qed
qed

subsection \<open>The formats on an ISO date\<close>

lemma month_names_table:
  "list_all (\<lambda>(name, m). name \<noteq> [] \<and> \<not> is_digit (hd name)) abbr_months"
  "list_all (\<lambda>(name, m). name \<noteq> [] \<and> \<not> is_digit (hd name)) full_months"
  by code_simp+

lemma name_alternatives_digit:
  assumes "list_all (\<lambda>(name, m). name \<noteq> [] \<and> \<not> is_digit (hd name)) names" "is_digit c"
  shows "name_alternatives names (c # r) = []"
proof -
  have "(if length name \<le> length (c # r) \<and> map lower_ascii (take (length name) (c # r)) = name
         then [(m, drop (length name) (c # r))] else []) = []"
    if "(name, m) \<in> set names" for name m
  proof -
    from assms(1) that have n: "name \<noteq> []" "\<not> is_digit (hd name)"
      unfolding list_all_iff by auto
    then obtain a rest where name: "name = a # rest" by (cases name) auto
    have "map lower_ascii (take (length name) (c # r)) \<noteq> name"
    proof
      assume "map lower_ascii (take (length name) (c # r)) = name"
      then have "lower_ascii c = a" by (simp add: name)
      with is_digit_props(5) [OF assms(2)] have "a = c" by simp
      with n(2) assms(2) show False by (simp add: name)
    qed
    then show ?thesis by simp
  qed
  then show ?thesis
    unfolding name_alternatives_def concat_eq_Nil_conv by auto
qed

lemma month_name_first_fails:
  assumes "is_digit c"
  shows "match_format (MonthAbbr # xs) (c # r) dt = []" "match_format (MonthFull # xs) (c # r) dt = []"
proof -
  obtain y m d where dt: "dt = (y, m, d)" by (cases dt)
  show "match_format (MonthAbbr # xs) (c # r) dt = []"
    by (simp add: dt name_alternatives_digit [OF month_names_table(1) assms])
  show "match_format (MonthFull # xs) (c # r) dt = []"
    by (simp add: dt name_alternatives_digit [OF month_names_table(2) assms])
qed

lemma day_alternatives_rest:
  assumes "(v, rest) \<in> set (day_alternatives (a # b # c # r))"
  shows "rest = b # c # r \<or> rest = c # r"
  using assms by (simp add: day_alternatives_def split: if_splits) blast

lemma space_alternatives_none:
  assumes "\<not> is_space c"
  shows "space_alternatives (c # r) = []"
  using assms by (simp add: space_alternatives_def)

lemma day_space_fails:
  assumes "\<not> is_space b" "\<not> is_space c"
  shows "match_format (Day # Space # xs) (a # b # c # r) dt = []"
proof -
  obtain y m d where dt: "dt = (y, m, d)" by (cases dt)
  have "match_format (Space # xs) rest dt' = []"
    if "(dt', rest) \<in> set (directive_step Day (a # b # c # r) dt)" for dt' rest
  proof -
    from that obtain v where "(v, rest) \<in> set (day_alternatives (a # b # c # r))"
      unfolding dt by auto
    from day_alternatives_rest [OF this] assms have "space_alternatives rest = []"
      by (auto simp: space_alternatives_none)
    then show ?thesis by simp
  qed
  then show ?thesis
    unfolding match_format.simps(2) [of Day] concat_eq_Nil_conv by auto
qed

lemma strptime_no_match: "match_format fmt s (1900, 1, 1) = [] \<Longrightarrow> strptime s fmt = None"
  by (simp add: strptime_def)

lemma concat_map_head:
  assumes "xs = a # others" "f a = b # others'"
  shows "\<exists>others''. concat (map f xs) = b # others''"
  using assms by simp

lemma iso_format_matches:
  assumes "list_all is_digit [c1, c2, c3, c4]" "month_prefix m1 m2" "day_prefix d1 d2"
  shows "\<exists>others. match_format [Year, Lit CHR ''-'', Month, Lit CHR ''-'', Day]
           [c1, c2, c3, c4, CHR ''-'', m1, m2, CHR ''-'', d1, d2] (1900, 1, 1) =
         ((digits_val [c1, c2, c3, c4], digits_val [m1, m2], digits_val [d1, d2]), []) # others"
proof -
  let ?y = "digits_val [c1, c2, c3, c4]" and ?m = "digits_val [m1, m2]" and ?d = "digits_val [d1, d2]"
  from day_alternatives_head [OF assms(3), of "[]"] obtain md where
    "day_alternatives [d1, d2] = (?d, []) # md" by blast
  then have d: "\<exists>others. match_format [Day] [d1, d2] (?y, ?m, 1) = ((?y, ?m, ?d), []) # others"
    by simp
  from month_alternatives_head [OF assms(2), of "[CHR ''-'', d1, d2]"] obtain mm where
    mm: "month_alternatives [m1, m2, CHR ''-'', d1, d2] = (?m, [CHR ''-'', d1, d2]) # mm" by blast
  from d have "\<exists>others. match_format [Month, Lit CHR ''-'', Day] [m1, m2, CHR ''-'', d1, d2] (?y, 1, 1) =
      ((?y, ?m, ?d), []) # others"
    by (auto simp: mm)
  moreover have "year_alternatives [c1, c2, c3, c4, CHR ''-'', m1, m2, CHR ''-'', d1, d2] =
      [(?y, [CHR ''-'', m1, m2, CHR ''-'', d1, d2])]"
    using assms(1) by (simp add: year_alternatives_def)
  ultimately show ?thesis by auto
qed

lemma iso_try_formats:
  assumes "list_all is_digit [c1, c2, c3, c4]" "month_prefix m1 m2" "day_prefix d1 d2"
    "is_digit m1" "is_digit m2" "is_digit d1" "is_digit d2"
    "valid_date (digits_val [c1, c2, c3, c4], digits_val [m1, m2], digits_val [d1, d2])"
  shows "try_formats date_formats [c1, c2, c3, c4, CHR ''-'', m1, m2, CHR ''-'', d1, d2] =
         Some (strftime_iso (digits_val [c1, c2, c3, c4], digits_val [m1, m2], digits_val [d1, d2]))"
proof -
  let ?s = "[c1, c2, c3, c4, CHR ''-'', m1, m2, CHR ''-'', d1, d2]"
  from assms(1) have c: "is_digit c1" "is_digit c2" "is_digit c3" by simp_all
  note sp = is_digit_props(1) [OF c(2)] is_digit_props(1) [OF c(3)]
  have n1: "strptime ?s (MonthAbbr # xs) = None" for xs
    by (rule strptime_no_match) (rule month_name_first_fails(1) [OF c(1)])
  have n2: "strptime ?s (MonthFull # xs) = None" for xs
    by (rule strptime_no_match) (rule month_name_first_fails(2) [OF c(1)])
  have n3: "strptime ?s (Day # Space # xs) = None" for xs
    by (rule strptime_no_match) (rule day_space_fails [OF sp])
  note n = n1 n2 n3
  from iso_format_matches [OF assms(1,2,3)] assms(8) have
    y: "strptime ?s [Year, Lit CHR ''-'', Month, Lit CHR ''-'', Day] =
        Some (digits_val [c1, c2, c3, c4], digits_val [m1, m2], digits_val [d1, d2])"
    by (auto simp: strptime_def)
  show ?thesis
    by (simp add: date_formats_def n y)
qed

lemma remove_parens_none: "CHR ''('' \<notin> set s \<Longrightarrow> remove_parens s = s"
proof (induction s)
  case Nil
  then show ?case by (simp add: remove_parens.simps)
next
  case (Cons a s)
  then have "a \<noteq> CHR ''(''" "remove_parens s = s" by auto
  then show ?case by (simp add: remove_parens.simps)
qed

lemma days_in_month_le: "days_in_month y m \<le> 31" "1 \<le> days_in_month y m"
  by (simp_all add: days_in_month_def)

lemma iso_roundtrip:
  assumes "valid_date (y, m, d)" "1000 \<le> y"
  shows "standardize_date (Str (strftime_iso (y, m, d))) = Some (strftime_iso (y, m, d))"
proof -
  from assms(1) have v: "y \<le> 9999" "1 \<le> m" "m \<le> 12" "1 \<le> d" "d \<le> 31"
    using days_in_month_le(1) [of y m] by (auto simp: valid_date_def)
  define c1 c2 c3 c4 where "c1 = digit_char (y div 1000)" and "c2 = digit_char (y div 100 mod 10)"
    and "c3 = digit_char (y div 10 mod 10)" and "c4 = digit_char (y mod 10)"
  have yy: "digits_of y = [c1, c2, c3, c4]"
    unfolding c1_def c2_def c3_def c4_def by (rule digits_of_four [OF assms(2) v(1)])
  from digits_val_of_four [OF assms(2) v(1)] have
    c: "list_all is_digit [c1, c2, c3, c4]" "digits_val [c1, c2, c3, c4] = y"
    by (simp_all add: yy)
  from month_pad [OF v(2,3)] obtain m1 m2 where
    mm: "pad2 m = [m1, m2]" "month_prefix m1 m2" "digits_val [m1, m2] = m" "is_digit m1" "is_digit m2"
    by blast
  from day_pad [OF v(4,5)] obtain d1 d2 where
    dd: "pad2 d = [d1, d2]" "day_prefix d1 d2" "digits_val [d1, d2] = d" "is_digit d1" "is_digit d2"
    by blast
  let ?s = "[c1, c2, c3, c4, CHR ''-'', m1, m2, CHR ''-'', d1, d2]"
  have s: "strftime_iso (y, m, d) = ?s" by (simp add: strftime_iso_def yy mm(1) dd(1))
  from c(1) have cd: "is_digit c1" "is_digit c2" "is_digit c3" "is_digit c4" by simp_all
  have "CHR ''('' \<notin> set ?s"
    using is_digit_props(2) [OF cd(1)] is_digit_props(2) [OF cd(2)] is_digit_props(2) [OF cd(3)]
      is_digit_props(2) [OF cd(4)] is_digit_props(2) [OF mm(4)] is_digit_props(2) [OF mm(5)]
      is_digit_props(2) [OF dd(4)] is_digit_props(2) [OF dd(5)]
    by auto
  then have p: "remove_parens ?s = ?s" by (rule remove_parens_none)
  have st: "strip ?s = ?s"
    using is_digit_props(1) [OF cd(1)] is_digit_props(1) [OF dd(5)] by (intro strip_fixed) simp_all
  have t: "try_formats date_formats ?s = Some ?s"
    using iso_try_formats [OF c(1) mm(2) dd(2) mm(4,5) dd(4,5)] assms(1)
    by (simp add: c(2) mm(3) dd(3) s)
  have "?s \<notin> set [''N/A'', ''TBA'', '''']" by simp
  then show ?thesis
    unfolding s by (simp add: standardize_date_def Let_def p st t del: set_simps)
qed

lemma digits_of_snoc:
  assumes "1 \<le> n" "k < 10"
  shows "digits_of (10 * n + k) = digits_of n @ [digit_char k]"
proof -
  from assms have "10 \<le> 10 * n + k" by simp
  from digits_of_large [OF this] assms(2) show ?thesis by simp
qed

lemma year_search_Some:
  "year_search b t = Some ys \<Longrightarrow> length ys = 4 \<and> (\<exists>q. year_here (ys @ q))"
proof (induction t arbitrary: b)
  case Nil
  then show ?case by simp
next
  case (Cons c s)
  show ?case
  proof (cases "\<not> b \<and> year_here (c # s)")
    case True
    with Cons.prems have ys: "ys = take 4 (c # s)" by simp
    from True have "4 \<le> length (c # s)" by (simp add: year_here_def)
    then have "length ys = 4" unfolding ys by simp
    moreover have "year_here (ys @ drop 4 (c # s))" unfolding ys using True by simp
    ultimately show ?thesis by blast
  next
    case False
    with Cons.prems have "year_search (is_word_char c) s = Some ys" by auto
    from Cons.IH [OF this] show ?thesis .
  qed
qed

lemma digit_literals:
  "digit_val CHR ''1'' = 1" "digit_val CHR ''9'' = 9" "digit_val CHR ''2'' = 2" "digit_val CHR ''0'' = 0"
  "is_digit CHR ''1''" "is_digit CHR ''9''" "is_digit CHR ''2''" "is_digit CHR ''0''"
  "pad2 1 = ''01''" "pad2 (Suc 0) = ''01''"
  by code_simp+

lemma year_string_roundtrip:
  assumes "length ys = 4" "year_here (ys @ q)"
  shows "digits_of (digits_val ys) = ys \<and> 1000 \<le> digits_val ys \<and> digits_val ys \<le> 9999"
proof -
  from assms(1) obtain a b c e where ys: "ys = [a, b, c, e]"
    by (cases ys; cases "tl ys"; cases "tl (tl ys)"; cases "tl (tl (tl ys))") auto
  from assms(2) have h: "(a = CHR ''1'' \<and> b = CHR ''9'') \<or> (a = CHR ''2'' \<and> b = CHR ''0'')"
    "is_digit c" "is_digit e"
    by (auto simp: year_here_def ys)
  from h(1) have ab: "is_digit a" "is_digit b" "1 \<le> digit_val a" "digit_val a \<le> 2"
    by (auto simp: digit_literals)
  note lt = is_digit_props(7) [OF ab(1)] is_digit_props(7) [OF ab(2)] is_digit_props(7) [OF h(2)]
    is_digit_props(7) [OF h(3)]
  define n1 n2 n3 where "n1 = digit_val a" and "n2 = 10 * n1 + digit_val b"
    and "n3 = 10 * n2 + digit_val c"
  have v: "digits_val ys = 10 * n3 + digit_val e"
    by (simp add: ys digits_val_def n1_def n2_def n3_def)
  have p: "1 \<le> n1" "n1 < 10" "1 \<le> n2" "1 \<le> n3"
    using ab(3) lt(1) by (simp_all add: n1_def n2_def n3_def)
  have "digits_of (10 * n3 + digit_val e) = digits_of n3 @ [digit_char (digit_val e)]"
    by (rule digits_of_snoc [OF p(4) lt(4)])
  also have "digits_of n3 = digits_of n2 @ [digit_char (digit_val c)]"
    unfolding n3_def by (rule digits_of_snoc [OF p(3) lt(3)])
  also have "digits_of n2 = digits_of n1 @ [digit_char (digit_val b)]"
    unfolding n2_def by (rule digits_of_snoc [OF p(1) lt(2)])
  also have "digits_of n1 = [digit_char (digit_val a)]"
    unfolding n1_def by (rule digits_of_small [OF lt(1)])
  finally have "digits_of (digits_val ys) =
      [digit_char (digit_val a), digit_char (digit_val b), digit_char (digit_val c),
       digit_char (digit_val e)]"
    by (simp add: v)
  then have "digits_of (digits_val ys) = ys"
    by (simp add: ys is_digit_props(6) [OF ab(1)] is_digit_props(6) [OF ab(2)]
        is_digit_props(6) [OF h(2)] is_digit_props(6) [OF h(3)])
  moreover have "1000 \<le> digits_val ys" "digits_val ys \<le> 9999"
    unfolding v n3_def n2_def n1_def using ab(3,4) lt by simp_all
  ultimately show ?thesis by simp
qed

lemma strptime_valid: "strptime s fmt = Some dt \<Longrightarrow> valid_date dt"
  by (auto simp: strptime_def split: list.splits if_splits)

lemma year_only_iso:
  assumes "valid_date (y, m, d)"
  shows "valid_date (y, 1, 1)" "digits_of y @ ''-01-01'' = strftime_iso (y, 1, 1)"
  using assms days_in_month_le(2) [of y 1]
  by (simp_all add: valid_date_def strftime_iso_def digit_literals)

lemma try_formats_iso:
  "try_formats fmts s = Some d \<Longrightarrow> \<exists>dt. valid_date dt \<and> d = strftime_iso dt"
proof (induction fmts)
  case Nil
  then show ?case by simp
next
  case (Cons fmt fmts)
  show ?case
  proof (cases "strptime s fmt")
    case None
    with Cons show ?thesis by simp
  next
    case (Some dt)
    obtain y m dd where dt: "dt = (y, m, dd)" by (cases dt)
    from strptime_valid [OF Some] have v: "valid_date (y, m, dd)" by (simp add: dt)
    show ?thesis
    proof (cases "fmt = [Year]")
      case True
      with Cons.prems Some have "d = digits_of y @ ''-01-01''" by (simp add: dt)
      with year_only_iso [OF v] show ?thesis by metis
    next
      case False
      with Cons.prems Some have "d = strftime_iso dt" by simp
      with v dt show ?thesis by blast
    qed
  qed
qed

lemma standardize_date_iso:
  assumes "standardize_date x = Some d"
  shows "\<exists>dt. valid_date dt \<and> d = strftime_iso dt"
proof -
  from assms obtain s where x: "x = Str s" by (cases x) (simp_all add: standardize_date_def)
  let ?t = "strip (remove_parens s)"
  show ?thesis
  proof (cases "try_formats date_formats ?t")
    case (Some r)
    with assms have "d = r"
      by (simp add: x standardize_date_def Let_def split: if_splits)
    with try_formats_iso [OF Some] show ?thesis by simp
  next
    case None
    with assms obtain ys where ys: "year_search False ?t = Some ys" "d = ys @ ''-01-01''"
      by (auto simp: x standardize_date_def Let_def split: if_splits option.splits)
    from year_search_Some [OF ys(1)] obtain q where "length ys = 4" "year_here (ys @ q)" by blast
    from year_string_roundtrip [OF this] have
      r: "digits_of (digits_val ys) = ys" "1000 \<le> digits_val ys" "digits_val ys \<le> 9999" by simp_all
    have "valid_date (digits_val ys, 1, 1)"
      using r(2,3) days_in_month_le(2) [of "digits_val ys" 1] by (simp add: valid_date_def)
    moreover have "d = strftime_iso (digits_val ys, 1, 1)"
      by (simp add: ys(2) strftime_iso_def r(1) digit_literals)
    ultimately show ?thesis by blast
  qed
qed

lemma standardize_date_twice:
  assumes "standardize_date x = Some d" "length d = 10"
  shows "standardize_date (Str d) = Some d"
proof -
  from standardize_date_iso [OF assms(1)] obtain y m dd where
    v: "valid_date (y, m, dd)" and d: "d = strftime_iso (y, m, dd)" by auto
  from v have b: "1 \<le> m" "m \<le> 12" "1 \<le> dd" "dd \<le> 31"
    using days_in_month_le(1) [of y m] by (auto simp: valid_date_def)
  from month_pad [OF b(1,2)] obtain m1 m2 where "pad2 m = [m1, m2]" by blast
  moreover from day_pad [OF b(3,4)] obtain d1 d2 where "pad2 dd = [d1, d2]" by blast
  ultimately have "length d = length (digits_of y) + 6" by (simp add: d strftime_iso_def)
  with assms(2) have "length (digits_of y) = 4" by simp
  with length_digits_of_small [of y] have "1000 \<le> y" by (cases "y < 1000") simp_all
  from iso_roundtrip [OF v this] show ?thesis by (simp add: d)
qed

lemma year_search_sublist:
  "year_search b t = Some ys \<Longrightarrow> \<exists>p q. t = p @ ys @ q"
proof (induction t arbitrary: b)
  case Nil
  then show ?case by simp
next
  case (Cons c s)
  show ?case
  proof (cases "\<not> b \<and> year_here (c # s)")
    case True
    with Cons.prems have "ys = take 4 (c # s)" by simp
    then have "c # s = [] @ ys @ drop 4 (c # s)" by simp
    then show ?thesis by blast
  next
    case False
    with Cons.prems have "year_search (is_word_char c) s = Some ys" by auto
    from Cons.IH [OF this] obtain p q where "s = p @ ys @ q" by blast
    then have "c # s = (c # p) @ ys @ q" by simp
    then show ?thesis by blast
  qed
qed

lemma year_search_shape:
  assumes "year_search b t = Some ys"
  shows "length ys = 4 \<and> (take 2 ys = ''19'' \<or> take 2 ys = ''20'') \<and> list_all is_digit ys"
proof -
  from year_search_Some [OF assms] obtain q where l: "length ys = 4" and h: "year_here (ys @ q)"
    by blast
  from l obtain a b c e where ys: "ys = [a, b, c, e]"
    by (cases ys; cases "tl ys"; cases "tl (tl ys)"; cases "tl (tl (tl ys))") auto
  from h have "(a = CHR ''1'' \<and> b = CHR ''9'') \<or> (a = CHR ''2'' \<and> b = CHR ''0'')"
    "is_digit c" "is_digit e"
    by (auto simp: year_here_def ys)
  then show ?thesis by (auto simp: ys digit_literals)
qed

subsection \<open>The claims about titles and dates\<close>

lemma date_examples:
  "standardize_date (Str ''Jan 1, 2020'') = Some ''2020-01-01''"
  "standardize_date (Str ''01/01/2020'') = Some ''2020-01-01''"
  "standardize_date (Str ''2020'') = Some ''2020-01-01''"
  "standardize_date Null = None"
  by code_simp+

text \<open>
  The scan looks for a year that stands as a word of its own: the pattern has a word
  boundary on both sides, so a year that runs into letters or further digits is not found.
\<close>

lemma year_scan_whole_word:
  "standardize_date (Str ''2021soon'') = None"
  "standardize_date (Str ''build 12021'') = None"
  "standardize_date (Str ''Q3 2021'') = Some ''2021-01-01''"
  by code_simp+

text \<open>
  Claim C7.  \<open>_standardize_date\<close> maps \<open>Jan 1, 2020\<close>, \<open>01/01/2020\<close> and \<open>2020\<close> to
  \<open>2020-01-01\<close>.  For a string other than the placeholders that none of the twelve formats
  parses (after the bracketed parts are removed and the string is stripped), the result is
  the year found by the scan for \<open>19dd\<close> or \<open>20dd\<close>, followed by \<open>-01-01\<close>, and null when
  the scan finds nothing; the year found is a part of the string, four digits that start
  with 19 or 20.
\<close>

theorem standardize_date_examples_and_fallback:
  "standardize_date (Str ''Jan 1, 2020'') = Some ''2020-01-01'' \<and>
   standardize_date (Str ''01/01/2020'') = Some ''2020-01-01'' \<and>
   standardize_date (Str ''2020'') = Some ''2020-01-01'' \<and>
   (s \<notin> set [''N/A'', ''TBA'', ''''] \<and> try_formats date_formats (strip (remove_parens s)) = None \<longrightarrow>
      standardize_date (Str s) =
        (case year_search False (strip (remove_parens s)) of
           Some y \<Rightarrow> Some (y @ ''-01-01'')
         | None \<Rightarrow> None)) \<and>
   (year_search False t = Some y \<longrightarrow>
      length y = 4 \<and> (take 2 y = ''19'' \<or> take 2 y = ''20'') \<and> list_all is_digit y \<and>
      (\<exists>p q. t = p @ y @ q))"
proof -
  have a: "s \<notin> set [''N/A'', ''TBA'', ''''] \<and> try_formats date_formats (strip (remove_parens s)) = None \<longrightarrow>
      standardize_date (Str s) =
        (case year_search False (strip (remove_parens s)) of
           Some y \<Rightarrow> Some (y @ ''-01-01'')
         | None \<Rightarrow> None)"
    by (simp add: standardize_date_def Let_def)
  have b: "year_search False t = Some y \<longrightarrow>
      length y = 4 \<and> (take 2 y = ''19'' \<or> take 2 y = ''20'') \<and> list_all is_digit y \<and>
      (\<exists>p q. t = p @ y @ q)"
    using year_search_shape [of False t y] year_search_sublist [of False t y] by blast
  from a b date_examples show ?thesis by blast
qed

theorem standardize_date_examples_and_fallback_witness:
  "try_formats date_formats (strip (remove_parens ''Q3 2021'')) = None \<and>
   standardize_date (Str ''Q3 2021'') = Some ''2021-01-01'' \<and>
   try_formats date_formats (strip (remove_parens ''Coming soon'')) = None \<and>
   standardize_date (Str ''Coming soon'') = None \<and>
   year_search False ''Q3 2021'' = Some ''2021'' \<and> list_all is_digit ''2021''"
proof -
  have f: "try_formats date_formats (strip (remove_parens ''Q3 2021'')) = None"
    "try_formats date_formats (strip (remove_parens ''Coming soon'')) = None"
    by code_simp+
  have y: "year_search False (strip (remove_parens ''Q3 2021'')) = Some ''2021''"
    "year_search False (strip (remove_parens ''Coming soon'')) = None"
    "year_search False ''Q3 2021'' = Some ''2021''"
    by code_simp+
  have n: "''Q3 2021'' \<notin> set [''N/A'', ''TBA'', '''']" "''Coming soon'' \<notin> set [''N/A'', ''TBA'', '''']"
    by simp_all
  from standardize_date_examples_and_fallback [of "''Q3 2021''" "''Q3 2021''" "''2021''"]
    standardize_date_examples_and_fallback [of "''Coming soon''" "''Q3 2021''" "''2021''"]
    f y n
  show ?thesis by simp
qed

text \<open>
  Claim C8 says that cleaning a title twice and standardising a date twice change nothing.
  The title \<open>1. 2. Foo\<close> is cleaned to \<open>2. Foo\<close> and then to \<open>Foo\<close>; the date \<open>0999\<close> is
  standardised to \<open>999-01-01\<close>, which is standardised to null.
\<close>

theorem normalisation_not_idempotent:
  "clean_game_title (Str ''1. 2. Foo'') = Str ''2. Foo'' \<and>
   clean_game_title (clean_game_title (Str ''1. 2. Foo'')) = Str ''Foo'' \<and>
   standardize_date (Str ''0999'') = Some ''999-01-01'' \<and>
   standardize_date (Str ''999-01-01'') = None"
  by code_simp

text \<open>
  Claim C8, as amended.  Cleaning a title a second time changes nothing when the cleaned
  title does not begin with a numbering of its own (digits and a period), and nothing for a
  value that is not a string.  Standardising a date a second time changes nothing when the
  first result has ten characters, each of them one of the digits \<open>0\<close> to \<open>9\<close> or a
  hyphen; and the text \<open>YYYY-MM-DD\<close> of every date of the calendar with a year of four
  digits is left as it is.
\<close>

theorem normalisation_idempotent_when_settled:
  "(clean_game_title (Str s) = Str t \<and> \<not> has_numbering t \<longrightarrow>
      clean_game_title (clean_game_title (Str s)) = clean_game_title (Str s)) \<and>
   (\<not> is_str v \<longrightarrow> clean_game_title (clean_game_title v) = clean_game_title v) \<and>
   (standardize_date x = Some d \<and> length d = 10 \<and>
    list_all (\<lambda>c. is_digit c \<or> c = CHR ''-'') d \<longrightarrow>
      standardize_date (Str d) = Some d) \<and>
   (valid_date (y, m, dd) \<and> 1000 \<le> y \<longrightarrow>
      standardize_date (Str (strftime_iso (y, m, dd))) = Some (strftime_iso (y, m, dd)))"
  using clean_twice [of s t] clean_non_string [of v] standardize_date_twice [of x d]
    iso_roundtrip [of y m dd]
  by blast

theorem normalisation_idempotent_when_settled_witness:
  "clean_game_title (Str ''235. Great Game'') = Str ''Great Game'' \<and>
   \<not> has_numbering ''Great Game'' \<and>
   clean_game_title (clean_game_title (Str ''235. Great Game'')) = Str ''Great Game'' \<and>
   clean_game_title (clean_game_title Null) = clean_game_title Null \<and>
   standardize_date (Str ''Jan 1, 2020'') = Some ''2020-01-01'' \<and>
   list_all (\<lambda>c. is_digit c \<or> c = CHR ''-'') ''2020-01-01'' \<and>
   standardize_date (Str ''2020-01-01'') = Some ''2020-01-01'' \<and>
   valid_date (2020, 2, 29) \<and>
   standardize_date (Str ''2020-02-29'') = Some ''2020-02-29''"
proof -
  have c: "clean_game_title (Str ''235. Great Game'') = Str ''Great Game''"
    "\<not> has_numbering ''Great Game''" "\<not> is_str Null"
    by code_simp+
  have l: "length ''2020-01-01'' = 10" "list_all (\<lambda>c. is_digit c \<or> c = CHR ''-'') ''2020-01-01''"
    by code_simp+
  have v: "valid_date (2020, 2, 29)" "(1000::nat) \<le> 2020"
    "strftime_iso (2020, 2, 29) = ''2020-02-29''"
    by code_simp+
  from normalisation_idempotent_when_settled
      [of "''235. Great Game''" "''Great Game''" Null "Str ''Jan 1, 2020''" "''2020-01-01''"
          2020 2 29]
    c l v date_examples(1)
  show ?thesis by simp
qed

section \<open>Properties of the similarity score\<close>

definition pos_step :: "nat \<times> char \<Rightarrow> (char \<rightharpoonup> nat list) \<Rightarrow> (char \<rightharpoonup> nat list)" where
  "pos_step = (\<lambda>(i, elt) m. m(elt \<mapsto> (case m elt of None \<Rightarrow> [] | Some indices \<Rightarrow> indices) @ [i]))"

lemma fold_pos_step:
  "fold pos_step ps m c =
     (let new = map fst (filter (\<lambda>p. snd p = c) ps)
      in if new = [] then m c else Some ((case m c of None \<Rightarrow> [] | Some l \<Rightarrow> l) @ new))"
proof (induction ps arbitrary: m)
  case Nil
  then show ?case by simp
next
  case (Cons p ps)
  obtain i e where p: "p = (i, e)" by (cases p)
  show ?case
    by (cases "e = c") (simp_all add: p Cons.IH Let_def, simp_all add: pos_step_def)
qed

definition index_list :: "string \<Rightarrow> char \<Rightarrow> nat list \<Rightarrow> bool" where
  "index_list b c js = (sorted_wrt (<) js \<and> set js = {j. j < length b \<and> b ! j = c})"

lemma sorted_wrt_fst_enumerate_filter:
  "sorted_wrt (<) (map fst (filter P (enumerate k b)))"
proof -
  have "sorted_wrt (<) (map fst (enumerate k b))"
    by (simp add: map_fst_enumerate)
  with sorted_wrt_map [of "(<)" fst "enumerate k b"]
  have "sorted_wrt (\<lambda>x y. fst x < fst y) (enumerate k b)"
    by simp
  then show ?thesis
    by (simp add: sorted_wrt_map sorted_wrt_filter)
qed

lemma chain_b_index_list:
  assumes "chain_b b c = Some js"
  shows "index_list b c js"
proof -
  let ?m = "fold pos_step (enumerate 0 b) Map.empty"
  have m: "?m c = (let new = map fst (filter (\<lambda>p. snd p = c) (enumerate 0 b))
                   in if new = [] then None else Some new)"
    by (simp add: fold_pos_step Let_def)
  have "?m c = Some js"
    using assms by (auto simp: chain_b_def pos_step_def Let_def split: if_splits option.splits)
  with m have js: "js = map fst (filter (\<lambda>p. snd p = c) (enumerate 0 b))"
    by (auto simp: Let_def split: if_splits)
  have "set js = {j. j < length b \<and> b ! j = c}"
    unfolding js by (auto simp: in_set_enumerate_eq image_iff)
  then show ?thesis
    unfolding index_list_def js using sorted_wrt_fst_enumerate_filter by blast
qed

definition indexed :: "string \<Rightarrow> char \<Rightarrow> bool" where
  "indexed x c = (chain_b x c \<noteq> None)"

fun common_suffix :: "string \<Rightarrow> nat \<Rightarrow> nat \<Rightarrow> nat" where
  "common_suffix x 0 j = (if 0 < length x \<and> j < length x \<and> x ! 0 = x ! j \<and> indexed x (x ! j) then 1 else 0)"
| "common_suffix x (Suc i) j =
     (if Suc i < length x \<and> j < length x \<and> x ! Suc i = x ! j \<and> indexed x (x ! j)
      then (if j = 0 then 1 else common_suffix x i (j - 1) + 1) else 0)"

lemma cs_pos_iff:
  "0 < common_suffix x i j \<longleftrightarrow> i < length x \<and> j < length x \<and> x ! i = x ! j \<and> indexed x (x ! j)"
  by (cases i) auto

lemma cs_le_Suc: "common_suffix x i j \<le> Suc i"
  by (induction i arbitrary: j) auto

lemma cs_diag:
  "common_suffix x i i = (if i < length x \<and> indexed x (x ! i) then (case i of 0 \<Rightarrow> 1 | Suc i' \<Rightarrow> common_suffix x i' i' + 1) else 0)"
  by (cases i) simp_all

lemma cs_le_diag: "common_suffix x i j \<le> common_suffix x i i \<and> common_suffix x i j \<le> common_suffix x j j"
proof (induction i arbitrary: j)
  case 0
  show ?case
  proof (cases "0 < common_suffix x 0 j")
    case True
    then have c: "0 < length x" "j < length x" "x ! 0 = x ! j" "indexed x (x ! j)"
      unfolding cs_pos_iff by simp_all
    then have "common_suffix x 0 j = 1" "common_suffix x 0 0 = 1" "1 \<le> common_suffix x j j"
      by (simp_all add: cs_diag [of x j] split: nat.split)
    then show ?thesis by simp
  next
    case False
    then show ?thesis by simp
  qed
next
  case (Suc i)
  show ?case
  proof (cases "0 < common_suffix x (Suc i) j")
    case True
    then have c: "Suc i < length x" "j < length x" "x ! Suc i = x ! j" "indexed x (x ! j)"
      unfolding cs_pos_iff by simp_all
    have d: "common_suffix x (Suc i) (Suc i) = common_suffix x i i + 1"
      using c by (simp add: cs_diag [of x "Suc i"])
    show ?thesis
    proof (cases j)
      case 0
      with c have "common_suffix x (Suc i) j = 1" "common_suffix x j j = 1" by simp_all
      with d show ?thesis by simp
    next
      case (Suc j')
      with c have "common_suffix x (Suc i) j = common_suffix x i j' + 1" "common_suffix x j j = common_suffix x j' j' + 1"
        by (simp_all add: cs_diag [of x "Suc j'"])
      with d Suc.IH [of j'] show ?thesis by simp
    qed
  next
    case False
    then show ?thesis by simp
  qed
qed

definition suffix_row :: "string \<Rightarrow> nat \<Rightarrow> (nat \<rightharpoonup> nat)" where
  "suffix_row x i = (\<lambda>j. if 0 < common_suffix x i j then Some (common_suffix x i j) else None)"

definition prev_row :: "string \<Rightarrow> nat \<Rightarrow> (nat \<rightharpoonup> nat)" where
  "prev_row x i = (case i of 0 \<Rightarrow> Map.empty | Suc i' \<Rightarrow> suffix_row x i')"

definition kval :: "(nat \<rightharpoonup> nat) \<Rightarrow> nat \<Rightarrow> nat" where
  "kval j2len j = (if j = 0 then 0 else case j2len (j - 1) of None \<Rightarrow> 0 | Some v \<Rightarrow> v) + 1"

lemma kval_prev_row:
  assumes "0 < common_suffix x i j"
  shows "kval (prev_row x i) j = common_suffix x i j"
proof -
  from assms have c: "i < length x" "j < length x" "x ! i = x ! j" "indexed x (x ! j)"
    unfolding cs_pos_iff by simp_all
  show ?thesis
  proof (cases i)
    case 0
    with c show ?thesis by (simp add: kval_def prev_row_def)
  next
    case (Suc i')
    have "(case suffix_row x i' (j - 1) of None \<Rightarrow> 0 | Some v \<Rightarrow> v) = common_suffix x i' (j - 1)"
      by (simp add: suffix_row_def)
    with c Suc show ?thesis by (simp add: kval_def prev_row_def)
  qed
qed

declare common_suffix.simps [simp del]

lemma inner_loop_Cons:
  "inner_loop j2len i blo bhi (j # js) (m, best) =
     (if j < blo then inner_loop j2len i blo bhi js (m, best)
      else if j \<ge> bhi then (m, best)
      else inner_loop j2len i blo bhi js
             (m(j \<mapsto> kval j2len j),
              if kval j2len j > snd (snd best)
              then (i + 1 - kval j2len j, j + 1 - kval j2len j, kval j2len j) else best))"
  by (cases best) (simp add: kval_def Let_def)

lemma inner_loop_map:
  assumes "\<forall>j\<in>set js. j < bhi"
  shows "fst (inner_loop j2len i 0 bhi js (m, best)) =
         (\<lambda>j. if j \<in> set js then Some (kval j2len j) else m j)"
  using assms
proof (induction js arbitrary: m best)
  case Nil
  then show ?case by simp
next
  case (Cons j js)
  then show ?case by (auto simp: inner_loop_Cons simp del: inner_loop.simps)
qed

definition diag_inv :: "string \<Rightarrow> nat \<Rightarrow> match \<Rightarrow> bool" where
  "diag_inv x i best =
     (fst best = fst (snd best) \<and> fst best + snd (snd best) \<le> length x \<and>
      (\<forall>i'<i. common_suffix x i' i' \<le> snd (snd best)))"

lemma inner_loop_diag:
  assumes "i < length x" "indexed x (x ! i)"
  shows "\<forall>j\<in>set js. j < length x \<and> x ! j = x ! i \<Longrightarrow> sorted_wrt (<) js \<Longrightarrow>
     diag_inv x i best \<Longrightarrow> i \<in> set js \<or> common_suffix x i i \<le> snd (snd best) \<Longrightarrow>
     diag_inv x (Suc i) (snd (inner_loop (prev_row x i) i 0 (length x) js (m, best)))"
proof (induction js arbitrary: m best)
  case Nil
  then show ?case by (auto simp: diag_inv_def less_Suc_eq)
next
  case (Cons j js)
  have j: "j < length x" "x ! j = x ! i" using Cons.prems(1) by simp_all
  with assms have "0 < common_suffix x i j" by (simp add: cs_pos_iff)
  then have k: "kval (prev_row x i) j = common_suffix x i j" by (rule kval_prev_row)
  have rest: "\<forall>j\<in>set js. j < length x \<and> x ! j = x ! i" "sorted_wrt (<) js"
    using Cons.prems(1,2) by simp_all
  have step: "inner_loop (prev_row x i) i 0 (length x) (j # js) (m, best) =
      inner_loop (prev_row x i) i 0 (length x) js
        (m(j \<mapsto> common_suffix x i j),
         if common_suffix x i j > snd (snd best) then (i + 1 - common_suffix x i j, j + 1 - common_suffix x i j, common_suffix x i j) else best)"
    using j(1) by (simp add: inner_loop_Cons k del: inner_loop.simps)
  show ?case
  proof (cases "j = i")
    case True
    let ?best = "if common_suffix x i j > snd (snd best)
                 then (i + 1 - common_suffix x i j, j + 1 - common_suffix x i j, common_suffix x i j) else best"
    have a: "diag_inv x i ?best"
      using Cons.prems(3) cs_le_Suc [of x i i] assms(1) True by (auto simp: diag_inv_def)
    have b: "i \<in> set js \<or> common_suffix x i i \<le> snd (snd ?best)"
      using True by simp
    from Cons.IH [OF rest a b, of "m(j \<mapsto> common_suffix x i j)"] show ?thesis
      by (simp only: step)
  next
    case False
    have "common_suffix x i j \<le> snd (snd best)"
    proof (cases "j < i")
      case True
      then have "common_suffix x j j \<le> snd (snd best)" using Cons.prems(3) by (simp add: diag_inv_def)
      with cs_le_diag [of x i j] show ?thesis by simp
    next
      case nl: False
      with False have "i < j" by simp
      with Cons.prems(2) have "i \<notin> set (j # js)" by auto
      with Cons.prems(4) have "common_suffix x i i \<le> snd (snd best)" by simp
      with cs_le_diag [of x i j] show ?thesis by simp
    qed
    then have s: "\<not> common_suffix x i j > snd (snd best)" by simp
    have "i \<in> set js \<or> common_suffix x i i \<le> snd (snd best)"
      using Cons.prems(4) False by auto
    from Cons.IH [OF rest Cons.prems(3) this, of "m(j \<mapsto> common_suffix x i j)"] show ?thesis
      by (simp only: step s if_False)
  qed
qed

lemma row_eq_index:
  assumes "i < length x" "index_list x (x ! i) js" "indexed x (x ! i)"
  shows "(\<lambda>j. if j \<in> set js then Some (kval (prev_row x i) j) else None) = suffix_row x i"
proof
  fix j
  have "j \<in> set js \<longleftrightarrow> j < length x \<and> x ! j = x ! i"
    using assms(2) by (simp add: index_list_def)
  also have "\<dots> \<longleftrightarrow> 0 < common_suffix x i j"
    unfolding cs_pos_iff using assms(1,3) by metis
  finally have "j \<in> set js \<longleftrightarrow> 0 < common_suffix x i j" .
  then show "(if j \<in> set js then Some (kval (prev_row x i) j) else None) = suffix_row x i j"
    by (simp add: suffix_row_def kval_prev_row)
qed

lemma outer_step_diag:
  assumes "i < length x" "diag_inv x i best"
  shows "fst (outer_step x (chain_b x) 0 (length x) i (prev_row x i, best)) = prev_row x (Suc i) \<and>
         diag_inv x (Suc i) (snd (outer_step x (chain_b x) 0 (length x) i (prev_row x i, best)))"
proof (cases "chain_b x (x ! i)")
  case None
  then have n: "\<not> indexed x (x ! i)" by (simp add: indexed_def)
  have z: "common_suffix x i j = 0" for j
  proof (rule ccontr)
    assume "common_suffix x i j \<noteq> 0"
    then have "0 < common_suffix x i j" by simp
    then have "x ! i = x ! j" "indexed x (x ! j)" unfolding cs_pos_iff by simp_all
    with n show False by simp
  qed
  then have "suffix_row x i = Map.empty" by (simp add: suffix_row_def)
  moreover have "diag_inv x (Suc i) best"
    using assms(2) z [of i] by (auto simp: diag_inv_def less_Suc_eq)
  ultimately show ?thesis by (simp add: outer_step_def None prev_row_def)
next
  case (Some js)
  then have i: "indexed x (x ! i)" by (simp add: indexed_def)
  from Some have l: "index_list x (x ! i) js" by (rule chain_b_index_list)
  then have b: "\<forall>j\<in>set js. j < length x \<and> x ! j = x ! i" "sorted_wrt (<) js" "i \<in> set js"
    using assms(1) by (simp_all add: index_list_def)
  then have "\<forall>j\<in>set js. j < length x" by simp
  from inner_loop_map [OF this, of "prev_row x i" i Map.empty best] row_eq_index [OF assms(1) l i]
  have "fst (inner_loop (prev_row x i) i 0 (length x) js (Map.empty, best)) = suffix_row x i" by simp
  moreover have "diag_inv x (Suc i) (snd (inner_loop (prev_row x i) i 0 (length x) js (Map.empty, best)))"
    using inner_loop_diag [OF assms(1) i b(1) b(2) assms(2)] b(3) by simp
  ultimately show ?thesis by (simp add: outer_step_def Some prev_row_def)
qed


lemma main_fold_diag:
  "d \<le> length x \<Longrightarrow>
   (\<exists>best. fold (outer_step x (chain_b x) 0 (length x)) [0..<d] (Map.empty, (0, 0, 0)) =
      (prev_row x d, best) \<and> diag_inv x d best)"
proof (induction d)
  case 0
  then show ?case by (simp add: prev_row_def diag_inv_def)
next
  case (Suc d)
  then obtain best where b: "fold (outer_step x (chain_b x) 0 (length x)) [0..<d] (Map.empty, (0, 0, 0)) =
      (prev_row x d, best)" "diag_inv x d best" by auto
  from Suc.prems have "d < length x" by simp
  from outer_step_diag [OF this b(2)] show ?case
    by (simp add: b(1) prod_eq_iff)
qed

lemma extend_left_diag:
  "extend_left x x 0 0 (d, d, s) = (0, 0, d + s)"
proof (induction d arbitrary: s)
  case 0
  then show ?case by (simp add: extend_left.simps [of x x 0 0 0])
next
  case (Suc d)
  from Suc.IH [of "Suc s"] show ?case by (simp add: extend_left.simps [of x x 0 0 "Suc d"])
qed

lemma extend_right_diag:
  "s \<le> n \<Longrightarrow> extend_right x x n n (0, 0, s) = (0, 0, n)"
proof (induction "n - s" arbitrary: s)
  case 0
  then have "s = n" by simp
  then show ?case by (simp add: extend_right.simps [of x x n n 0 0 n])
next
  case (Suc m)
  then have "m = n - Suc s" "Suc s \<le> n" "s < n" by simp_all
  from Suc.hyps(1) [OF this(1,2)] this(3) show ?case
    by (simp add: extend_right.simps [of x x n n 0 0 s])
qed


lemma find_longest_match_self:
  "find_longest_match x x (chain_b x) 0 (length x) 0 (length x) = (0, 0, length x)"
proof -
  from main_fold_diag [of "length x" x] obtain best where
    b: "main_loop x (chain_b x) 0 (length x) 0 (length x) = best" "diag_inv x (length x) best"
    by (auto simp: main_loop_def)
  obtain d s where best: "best = (d, d, s)" "d + s \<le> length x"
    using b(2) by (cases best) (auto simp: diag_inv_def)
  show ?thesis
    by (simp add: find_longest_match_def b(1) best extend_left_diag extend_right_diag)
qed

lemma get_matching_blocks_self:
  assumes "x \<noteq> []"
  shows "get_matching_blocks x x = [(0, 0, length x)]"
  using assms by (simp add: get_matching_blocks_def find_longest_match_self)

lemma ratio_self: "ratio x x = 1"
proof (cases "x = []")
  case True
  then show ?thesis by (simp add: ratio_def)
next
  case False
  then show ?thesis by (simp add: ratio_def get_matching_blocks_self)
qed


lemma lower_elden: "lower ''Elden Ring'' = lower ''elden ring''"
  by code_simp

text \<open>
  Claim C9.  The similarity of a string with itself is 1.0 (for every string, so for every
  non-empty one), and the comparison ignores case: \<open>Elden Ring\<close> and \<open>elden ring\<close> have
  similarity 1.0.
\<close>

theorem string_similarity_self:
  "string_similarity (Str x) (Str x) = 1 \<and>
   string_similarity (Str ''Elden Ring'') (Str ''elden ring'') = 1"
  by (simp add: string_similarity_def ratio_self lower_elden)

section \<open>Properties of the record linker\<close>

subsection \<open>An empty side\<close>

lemma matched_frame_no_steam: "fold (add_match []) metacritic df = df"
  by (induction metacritic arbitrary: df) (simp_all add: add_match_def find_best_match_def)

text \<open>
  Claim C2 says that \<open>merge_datasets\<close> with an empty left table returns the unmatched right
  rows, with an empty right table the unmatched left rows, and that it never raises when no
  match is found.  The code raises instead: with either table empty no matched row is
  appended, \<open>merged_df\<close> is still the frame without columns, and line 131 raises
  \<open>KeyError: 'game_title'\<close>.
\<close>

theorem merge_datasets_empty_side_raises:
  "merge_datasets [] steam_df = Inl (KeyError ''game_title'') \<and>
   merge_datasets metacritic_df [] = Inl (KeyError ''game_title'')"
  by (simp add: merge_datasets_def prepare_metacritic_def prepare_steam_def matched_frame_def
      matched_frame_no_steam empty_frame_def get_column_def)

subsection \<open>The columns of the result\<close>

definition row_keys :: "string list" where
  "row_keys =
     [''game_title'', ''metacritic_url'', ''metascore'', ''platform'', ''release_date'',
      ''developer'', ''publisher'', ''genres'', ''steam_url'', ''price'', ''discount'',
      ''steam_review_summary'', ''steam_review_count'', ''steam_release_date'',
      ''steam_developer'', ''steam_publisher'', ''steam_tags'', ''match_confidence'',
      ''is_matched'']"

lemma row_keys_of_rows:
  "map fst (merged_row g s c) = row_keys"
  "map fst (unmatched_mc_row g) = row_keys"
  "map fst (unmatched_steam_row s) = row_keys"
  by (simp_all add: merged_row_def unmatched_mc_row_def unmatched_steam_row_def row_keys_def)

lemma concat_row_columns:
  assumes "map fst r = row_keys" "columns df = [] \<or> columns df = row_keys"
  shows "columns (concat_row df r) = row_keys"
  using assms by (auto simp: concat_row_def)

lemma add_match_columns:
  assumes "columns df = [] \<or> columns df = row_keys"
  shows "columns (add_match steam g df) = [] \<or> columns (add_match steam g df) = row_keys"
proof (cases "find_best_match g steam")
  case (Pair bm bs)
  show ?thesis
  proof (cases bm)
    case None
    with Pair assms show ?thesis by (simp add: add_match_def)
  next
    case (Some s)
    with Pair concat_row_columns [OF row_keys_of_rows(1) assms] show ?thesis
      by (simp add: add_match_def)
  qed
qed

lemma fold_add_match_columns:
  "columns df = [] \<or> columns df = row_keys \<Longrightarrow>
   columns (fold (add_match steam) metacritic df) = [] \<or>
   columns (fold (add_match steam) metacritic df) = row_keys"
proof (induction metacritic arbitrary: df)
  case Nil
  then show ?case by simp
next
  case (Cons g metacritic)
  from Cons.IH [OF add_match_columns [OF Cons.prems]] show ?case by simp
qed

lemma matched_frame_columns:
  "columns (matched_frame metacritic steam) = [] \<or>
   columns (matched_frame metacritic steam) = row_keys"
  unfolding matched_frame_def by (rule fold_add_match_columns) (simp add: empty_frame_def)

lemma fold_concat_columns:
  assumes "\<And>g. map fst (f g) = row_keys"
  shows "columns df = row_keys \<Longrightarrow> columns (fold (\<lambda>g df. concat_row df (f g)) xs df) = row_keys"
proof (induction xs arbitrary: df)
  case Nil
  then show ?case by simp
next
  case (Cons x xs)
  have "columns (concat_row df (f x)) = row_keys"
    using concat_row_columns [OF assms] Cons.prems by simp
  from Cons.IH [OF this] show ?case by simp
qed

lemma get_column_Inr:
  "get_column df c = Inr xs \<longleftrightarrow> c \<in> set (columns df) \<and> xs = map (\<lambda>r. cell_of r c) (rows df)"
  by (auto simp: get_column_def)

lemma add_combined_score_columns:
  assumes "columns df = row_keys"
  shows "columns (add_combined_score df) = row_keys @ [''combined_score''] \<or>
         columns (add_combined_score df) = row_keys @ [''combined_score'', ''steam_review_score'']"
  using assms by (simp add: add_combined_score_def add_column_def Let_def row_keys_def)

lemma merge_datasets_columns:
  assumes "merge_datasets metacritic_df steam_df = Inr df"
  shows "columns df = row_keys @ [''combined_score''] \<or>
         columns df = row_keys @ [''combined_score'', ''steam_review_score'']"
proof -
  let ?mc = "prepare_metacritic metacritic_df" and ?st = "prepare_steam steam_df"
  let ?m = "matched_frame ?mc ?st"
  obtain t1 where t1: "get_column ?m ''game_title'' = Inr t1"
    using assms by (cases "get_column ?m ''game_title''") (simp_all add: merge_datasets_def Let_def)
  then have "''game_title'' \<in> set (columns ?m)" by (simp add: get_column_Inr)
  with matched_frame_columns [of ?mc ?st] have c1: "columns ?m = row_keys" by auto
  let ?u1 = "filter (\<lambda>g. mc_title g \<notin> set t1) ?mc"
  let ?m2 = "fold (\<lambda>g df. concat_row df (unmatched_mc_row g)) ?u1 ?m"
  have c2: "columns ?m2 = row_keys"
    using fold_concat_columns [of unmatched_mc_row, OF row_keys_of_rows(2) c1] .
  then have "''game_title'' \<in> set (columns ?m2)" by (simp add: row_keys_def)
  then have t2: "get_column ?m2 ''game_title'' = Inr (map (\<lambda>r. cell_of r ''game_title'') (rows ?m2))"
    by (simp add: get_column_def)
  let ?u2 = "filter (\<lambda>g. st_title g \<notin> set (map (\<lambda>r. cell_of r ''game_title'') (rows ?m2))) ?st"
  let ?m3 = "fold (\<lambda>g df. concat_row df (unmatched_steam_row g)) ?u2 ?m2"
  have c3: "columns ?m3 = row_keys"
    using fold_concat_columns [of unmatched_steam_row, OF row_keys_of_rows(3) c2] .
  let ?m4 = "?m3\<lparr>rows := filter (\<lambda>r. has_title (cell_of r ''game_title'')) (rows ?m3)\<rparr>"
  have "df = add_combined_score ?m4"
    using assms by (simp add: merge_datasets_def Let_def t1 t2)
  moreover have "columns ?m4 = row_keys" using c3 by simp
  ultimately show ?thesis using add_combined_score_columns by blast
qed

subsection \<open>The rows of the result\<close>

definition matched_rows :: "steam_game list \<Rightarrow> metacritic_game list \<Rightarrow> row list" where
  "matched_rows steam metacritic =
     concat (map (\<lambda>g. case find_best_match g steam of
                         (Some s, sc) \<Rightarrow> [merged_row g s sc]
                       | (None, sc) \<Rightarrow> []) metacritic)"

definition title_of :: "row \<Rightarrow> cell" where
  "title_of r = cell_of r ''game_title''"

definition pre_rows :: "metacritic_game list \<Rightarrow> steam_game list \<Rightarrow> row list" where
  "pre_rows metacritic steam =
     (let m = matched_rows steam metacritic;
          u1 = map unmatched_mc_row (filter (\<lambda>g. mc_title g \<notin> set (map title_of m)) metacritic);
          u2 = map unmatched_steam_row
                 (filter (\<lambda>g. st_title g \<notin> set (map title_of (m @ u1))) steam)
      in m @ u1 @ u2)"

definition finish_row :: "bool \<Rightarrow> row \<Rightarrow> row" where
  "finish_row any_mask r =
     (if any_mask then score_row (set_cell ''combined_score'' Null r)
      else set_cell ''combined_score'' Null r)"

lemma rows_add_match:
  "rows (add_match steam g df) = rows df @ matched_rows steam [g]"
  by (cases "find_best_match g steam"; cases "fst (find_best_match g steam)")
     (simp_all add: add_match_def matched_rows_def concat_row_def)

lemma matched_rows_Cons:
  "matched_rows steam (g # gs) = matched_rows steam [g] @ matched_rows steam gs"
  by (simp add: matched_rows_def)

lemma rows_fold_add_match:
  "rows (fold (add_match steam) metacritic df) = rows df @ matched_rows steam metacritic"
proof (induction metacritic arbitrary: df)
  case Nil
  then show ?case by (simp add: matched_rows_def)
next
  case (Cons g gs)
  show ?case by (simp add: Cons.IH rows_add_match matched_rows_Cons [of steam g gs])
qed

lemma rows_matched_frame: "rows (matched_frame metacritic steam) = matched_rows steam metacritic"
  by (simp add: matched_frame_def rows_fold_add_match empty_frame_def)

lemma rows_fold_concat:
  "rows (fold (\<lambda>g df. concat_row df (f g)) xs df) = rows df @ map f xs"
  by (induction xs arbitrary: df) (simp_all add: concat_row_def)

lemma title_of_rows:
  "title_of (merged_row g s c) = mc_title g"
  "title_of (unmatched_mc_row g) = mc_title g"
  "title_of (unmatched_steam_row s) = st_title s"
  by (simp_all add: title_of_def cell_of_def merged_row_def unmatched_mc_row_def
      unmatched_steam_row_def)

lemma prepared_has_title:
  "g \<in> set (prepare_metacritic metacritic_df) \<Longrightarrow> has_title (mc_title g)"
  "s \<in> set (prepare_steam steam_df) \<Longrightarrow> has_title (st_title s)"
  by (auto simp: prepare_metacritic_def prepare_steam_def)

lemma matched_rows_sources:
  assumes "r \<in> set (matched_rows steam metacritic)"
  shows "\<exists>g s sc. g \<in> set metacritic \<and> find_best_match g steam = (Some s, sc) \<and>
           r = merged_row g s sc"
proof -
  from assms obtain g where g: "g \<in> set metacritic"
    "r \<in> set (case find_best_match g steam of (Some s, sc) \<Rightarrow> [merged_row g s sc]
                 | (None, sc) \<Rightarrow> [])"
    by (auto simp: matched_rows_def)
  obtain bm sc where f: "find_best_match g steam = (bm, sc)"
    by (cases "find_best_match g steam")
  with g(2) obtain s where "bm = Some s" "r = merged_row g s sc"
    by (cases bm) simp_all
  with g(1) f show ?thesis by blast
qed

lemma pre_rows_have_title:
  assumes "r \<in> set (pre_rows (prepare_metacritic metacritic_df) (prepare_steam steam_df))"
  shows "has_title (title_of r)"
proof -
  let ?mc = "prepare_metacritic metacritic_df" and ?st = "prepare_steam steam_df"
  from assms consider
      (m) "r \<in> set (matched_rows ?st ?mc)"
    | (u1) g where "g \<in> set ?mc" "r = unmatched_mc_row g"
    | (u2) s where "s \<in> set ?st" "r = unmatched_steam_row s"
    by (auto simp: pre_rows_def Let_def)
  then show ?thesis
  proof cases
    case m
    from matched_rows_sources [OF m] show ?thesis
      by (auto simp: title_of_rows prepared_has_title)
  next
    case u1
    then show ?thesis by (simp add: title_of_rows prepared_has_title)
  next
    case u2
    then show ?thesis by (simp add: title_of_rows prepared_has_title)
  qed
qed

lemma rows_add_combined_score:
  "rows (add_combined_score d) =
     map (finish_row (list_ex in_mask (map (set_cell ''combined_score'' Null) (rows d)))) (rows d)"
  by (simp add: add_combined_score_def Let_def finish_row_def add_column_def)

lemma merge_datasets_rows:
  assumes "merge_datasets metacritic_df steam_df = Inr df"
  shows "rows df =
     map (finish_row (list_ex in_mask (map (set_cell ''combined_score'' Null)
            (pre_rows (prepare_metacritic metacritic_df) (prepare_steam steam_df)))))
       (pre_rows (prepare_metacritic metacritic_df) (prepare_steam steam_df))"
proof -
  let ?mc = "prepare_metacritic metacritic_df" and ?st = "prepare_steam steam_df"
  let ?m = "matched_frame ?mc ?st"
  obtain t1 where t1: "get_column ?m ''game_title'' = Inr t1"
    using assms by (cases "get_column ?m ''game_title''") (simp_all add: merge_datasets_def Let_def)
  then have t1_eq: "t1 = map title_of (matched_rows ?st ?mc)"
    by (simp add: get_column_Inr rows_matched_frame title_of_def)
  from t1 have "''game_title'' \<in> set (columns ?m)" by (simp add: get_column_Inr)
  with matched_frame_columns [of ?mc ?st] have c1: "columns ?m = row_keys" by auto
  let ?u1 = "filter (\<lambda>g. mc_title g \<notin> set t1) ?mc"
  let ?m2 = "fold (\<lambda>g df. concat_row df (unmatched_mc_row g)) ?u1 ?m"
  have c2: "columns ?m2 = row_keys"
    using fold_concat_columns [of unmatched_mc_row, OF row_keys_of_rows(2) c1] .
  then have "''game_title'' \<in> set (columns ?m2)" by (simp add: row_keys_def)
  then have t2: "get_column ?m2 ''game_title'' = Inr (map (\<lambda>r. cell_of r ''game_title'') (rows ?m2))"
    by (simp add: get_column_def)
  let ?u2 = "filter (\<lambda>g. st_title g \<notin> set (map (\<lambda>r. cell_of r ''game_title'') (rows ?m2))) ?st"
  let ?m3 = "fold (\<lambda>g df. concat_row df (unmatched_steam_row g)) ?u2 ?m2"
  let ?m4 = "?m3\<lparr>rows := filter (\<lambda>r. has_title (cell_of r ''game_title'')) (rows ?m3)\<rparr>"
  have df: "df = add_combined_score ?m4"
    using assms by (simp add: merge_datasets_def Let_def t1 t2)
  have r3: "rows ?m3 = pre_rows ?mc ?st"
    unfolding t1_eq
    by (simp add: rows_fold_concat rows_matched_frame pre_rows_def Let_def title_of_def
        image_image)
  have "filter (\<lambda>r. has_title (cell_of r ''game_title'')) (pre_rows ?mc ?st) = pre_rows ?mc ?st"
    using pre_rows_have_title [of _ metacritic_df steam_df]
    by (simp add: filter_id_conv title_of_def)
  with r3 have r4: "rows ?m4 = pre_rows ?mc ?st" by simp
  show ?thesis
    unfolding df rows_add_combined_score r4 ..
qed

subsection \<open>The scan for the best match\<close>

definition scan_inv :: "metacritic_game \<Rightarrow> steam_game set \<Rightarrow> steam_game option \<times> rat \<Rightarrow> bool" where
  "scan_inv g S st =
     ((fst st = None \<and> snd st = 0) \<or>
      (\<exists>s. fst st = Some s \<and> s \<in> S \<and> snd st = match_score g s \<and> 7 / 10 < snd st))"

lemma scan_step_inv:
  assumes "scan_inv g S st"
  shows "scan_inv g (insert x S) (scan_step g x st) \<and> snd st \<le> snd (scan_step g x st) \<and>
         (7 / 10 < match_score g x \<longrightarrow> match_score g x \<le> snd (scan_step g x st))"
  using assms by (auto simp: scan_inv_def scan_step_def)

lemma scan_fold_inv:
  "scan_inv g S st \<Longrightarrow>
   scan_inv g (S \<union> set xs) (fold (scan_step g) xs st) \<and>
   snd st \<le> snd (fold (scan_step g) xs st) \<and>
   (\<forall>x\<in>set xs. 7 / 10 < match_score g x \<longrightarrow> match_score g x \<le> snd (fold (scan_step g) xs st))"
proof (induction xs arbitrary: S st)
  case Nil
  then show ?case by simp
next
  case (Cons x xs)
  from scan_step_inv [OF Cons.prems, of x] have
    s: "scan_inv g (insert x S) (scan_step g x st)" "snd st \<le> snd (scan_step g x st)"
       "7 / 10 < match_score g x \<longrightarrow> match_score g x \<le> snd (scan_step g x st)" by auto
  from Cons.IH [OF s(1)] have
    i: "scan_inv g (insert x S \<union> set xs) (fold (scan_step g) xs (scan_step g x st))"
       "snd (scan_step g x st) \<le> snd (fold (scan_step g) xs (scan_step g x st))"
       "\<forall>y\<in>set xs. 7 / 10 < match_score g y \<longrightarrow>
          match_score g y \<le> snd (fold (scan_step g) xs (scan_step g x st))" by auto
  from s(2,3) i show ?case by auto
qed

lemma find_best_match_inv:
  "scan_inv g (set steam) (find_best_match g steam) \<and>
   (\<forall>x\<in>set steam. 7 / 10 < match_score g x \<longrightarrow> match_score g x \<le> snd (find_best_match g steam))"
proof -
  have "scan_inv g {} (None, 0)" by (simp add: scan_inv_def)
  from scan_fold_inv [OF this, of steam] show ?thesis by (simp add: find_best_match_def)
qed

lemma find_best_match_Some:
  assumes "find_best_match g steam = (Some s, sc)"
  shows "s \<in> set steam \<and> sc = match_score g s \<and> 7 / 10 < sc \<and>
         (\<forall>x\<in>set steam. match_score g x \<le> sc)"
proof -
  from find_best_match_inv [of g steam] assms have
    a: "s \<in> set steam" "sc = match_score g s" "7 / 10 < sc"
    and b: "\<forall>x\<in>set steam. 7 / 10 < match_score g x \<longrightarrow> match_score g x \<le> sc"
    by (auto simp: scan_inv_def)
  have "match_score g x \<le> sc" if "x \<in> set steam" for x
    using b that a(3) by (cases "7 / 10 < match_score g x") auto
  with a show ?thesis by blast
qed

lemma find_best_match_best:
  assumes "s \<in> set steam" "7 / 10 < match_score g s"
    "\<forall>x\<in>set steam. match_score g x \<le> match_score g s"
  shows "\<exists>s'. find_best_match g steam = (Some s', match_score g s) \<and> s' \<in> set steam \<and>
           match_score g s' = match_score g s"
proof -
  obtain bm sc where f: "find_best_match g steam = (bm, sc)"
    by (cases "find_best_match g steam")
  from find_best_match_inv [of g steam] f assms(1,2) have "match_score g s \<le> sc"
    by auto
  with find_best_match_inv [of g steam] f assms(2) obtain s' where
    s': "bm = Some s'" "s' \<in> set steam" "sc = match_score g s'"
    by (auto simp: scan_inv_def)
  with assms(3) \<open>match_score g s \<le> sc\<close> have "sc = match_score g s" by force
  with f s' show ?thesis by auto
qed

lemma find_best_match_unique_best:
  assumes "s \<in> set steam" "7 / 10 < match_score g s"
    "\<forall>x\<in>set steam. x \<noteq> s \<longrightarrow> match_score g x < match_score g s"
  shows "find_best_match g steam = (Some s, match_score g s)"
proof -
  have "\<forall>x\<in>set steam. match_score g x \<le> match_score g s"
    using assms(3) by force
  from find_best_match_best [OF assms(1,2) this] obtain s' where
    s': "find_best_match g steam = (Some s', match_score g s)" "s' \<in> set steam"
        "match_score g s' = match_score g s" by blast
  with assms(3) have "s' = s" by force
  with s'(1) show ?thesis by simp
qed

subsection \<open>Cells of the finished rows\<close>

lemma map_of_replace:
  "map_of (map (\<lambda>(k, x). if k = c then (k, v) else (k, x)) r) k =
     (if k = c then (if c \<in> set (map fst r) then Some v else None) else map_of r k)"
  by (induction r) (force split: if_splits)+

lemma cell_of_set_cell:
  "cell_of (set_cell c v r) k = (if k = c then v else cell_of r k)"
proof (cases "c \<in> set (map fst r)")
  case True
  then show ?thesis by (simp add: cell_of_def set_cell_def map_of_replace)
next
  case False
  then have "map_of r c = None" by (simp add: map_of_eq_None_iff)
  with False show ?thesis
    by (auto simp: cell_of_def set_cell_def map_add_def split: option.splits)
qed

lemma cell_of_score_row:
  assumes "k \<noteq> ''combined_score''" "k \<noteq> ''steam_review_score''"
  shows "cell_of (score_row r) k = cell_of r k"
  using assms by (simp add: score_row_def Let_def cell_of_set_cell)

lemma cell_of_finish_row:
  assumes "k \<noteq> ''combined_score''" "k \<noteq> ''steam_review_score''"
  shows "cell_of (finish_row b r) k = cell_of r k"
  using assms by (simp add: finish_row_def cell_of_set_cell cell_of_score_row)

lemma cells_of_rows:
  "cell_of (merged_row g s c) ''is_matched'' = Bool True"
  "cell_of (merged_row g s c) ''match_confidence'' = Num c"
  "cell_of (merged_row g s c) ''game_title'' = mc_title g"
  "cell_of (merged_row g s c) ''steam_url'' = st_app_url s"
  "cell_of (unmatched_mc_row g) ''is_matched'' = Bool False"
  "cell_of (unmatched_steam_row s) ''is_matched'' = Bool False"
  by (simp_all add: cell_of_def merged_row_def unmatched_mc_row_def unmatched_steam_row_def)

lemma pre_rows_cases:
  assumes "r \<in> set (pre_rows metacritic steam)"
  shows "(\<exists>g s sc. g \<in> set metacritic \<and> find_best_match g steam = (Some s, sc) \<and>
            r = merged_row g s sc) \<or>
         (\<exists>g. g \<in> set metacritic \<and> r = unmatched_mc_row g) \<or>
         (\<exists>s. s \<in> set steam \<and> r = unmatched_steam_row s)"
proof -
  from assms consider
      (m) "r \<in> set (matched_rows steam metacritic)"
    | (u1) g where "g \<in> set metacritic" "r = unmatched_mc_row g"
    | (u2) s where "s \<in> set steam" "r = unmatched_steam_row s"
    by (auto simp: pre_rows_def Let_def)
  then show ?thesis
  proof cases
    case m
    from matched_rows_sources [OF m] show ?thesis by blast
  next
    case u1
    then show ?thesis by blast
  next
    case u2
    then show ?thesis by blast
  qed
qed

lemma matched_output_row_confidence:
  assumes "merge_datasets metacritic_df steam_df = Inr df" "r \<in> set (rows df)"
    "cell_of r ''is_matched'' = Bool True"
  shows "\<exists>c. cell_of r ''match_confidence'' = Num c \<and> 7 / 10 < c"
proof -
  let ?mc = "prepare_metacritic metacritic_df" and ?st = "prepare_steam steam_df"
  from merge_datasets_rows [OF assms(1)] assms(2) obtain b r0 where
    r0: "r0 \<in> set (pre_rows ?mc ?st)" "r = finish_row b r0" by auto
  then have c: "cell_of r ''is_matched'' = cell_of r0 ''is_matched''"
      "cell_of r ''match_confidence'' = cell_of r0 ''match_confidence''"
    by (simp_all add: cell_of_finish_row)
  from pre_rows_cases [OF r0(1)] assms(3) c(1) obtain g s sc where
    "find_best_match g ?st = (Some s, sc)" "r0 = merged_row g s sc"
    by (auto simp: cells_of_rows)
  with find_best_match_Some [of g ?st s sc] c(2) show ?thesis
    by (simp add: cells_of_rows)
qed

subsection \<open>A match makes the call return\<close>

lemma concat_row_columns_nonempty: "columns (concat_row df (merged_row g s c)) \<noteq> []"
  by (simp add: concat_row_def merged_row_def)

lemma add_match_frame_ok:
  assumes "rows df \<noteq> [] \<longrightarrow> columns df = row_keys" "columns df = [] \<or> columns df = row_keys"
  shows "rows (add_match steam g df) \<noteq> [] \<longrightarrow> columns (add_match steam g df) = row_keys"
proof (cases "find_best_match g steam")
  case (Pair bm bs)
  show ?thesis
  proof (cases bm)
    case None
    with Pair assms show ?thesis by (simp add: add_match_def)
  next
    case (Some s)
    with Pair concat_row_columns [OF row_keys_of_rows(1) assms(2)] show ?thesis
      by (simp add: add_match_def)
  qed
qed

lemma fold_add_match_frame_ok:
  "rows df \<noteq> [] \<longrightarrow> columns df = row_keys \<Longrightarrow> columns df = [] \<or> columns df = row_keys \<Longrightarrow>
   rows (fold (add_match steam) metacritic df) \<noteq> [] \<longrightarrow>
   columns (fold (add_match steam) metacritic df) = row_keys"
proof (induction metacritic arbitrary: df)
  case Nil
  then show ?case by simp
next
  case (Cons g metacritic)
  from Cons.IH [OF add_match_frame_ok [OF Cons.prems] add_match_columns [OF Cons.prems(2)]]
  show ?case by simp
qed

lemma merge_datasets_returns:
  assumes "matched_rows (prepare_steam steam_df) (prepare_metacritic metacritic_df) \<noteq> []"
  shows "\<exists>df. merge_datasets metacritic_df steam_df = Inr df"
proof -
  let ?mc = "prepare_metacritic metacritic_df" and ?st = "prepare_steam steam_df"
  let ?m = "matched_frame ?mc ?st"
  have "rows ?m \<noteq> [] \<longrightarrow> columns ?m = row_keys"
    unfolding matched_frame_def
    by (rule fold_add_match_frame_ok) (simp_all add: empty_frame_def)
  with assms have c1: "columns ?m = row_keys" by (simp add: rows_matched_frame)
  then have g1: "''game_title'' \<in> set (columns ?m)" by (simp add: row_keys_def)
  have "columns (fold (\<lambda>g df. concat_row df (unmatched_mc_row g)) xs ?m) = row_keys" for xs
    using fold_concat_columns [of unmatched_mc_row, OF row_keys_of_rows(2) c1] .
  then have g2: "''game_title'' \<in> set (columns (fold (\<lambda>g df. concat_row df (unmatched_mc_row g)) xs ?m))"
    for xs by (simp add: row_keys_def)
  show ?thesis
    by (simp add: merge_datasets_def Let_def get_column_def g1 g2)
qed

lemma matched_pair_in_output:
  assumes "g \<in> set (prepare_metacritic metacritic_df)"
    "find_best_match g (prepare_steam steam_df) = (Some s, sc)"
  shows "\<exists>df. merge_datasets metacritic_df steam_df = Inr df \<and>
           (\<exists>r\<in>set (rows df). cell_of r ''game_title'' = mc_title g \<and>
              cell_of r ''steam_url'' = st_app_url s \<and> cell_of r ''is_matched'' = Bool True \<and>
              cell_of r ''match_confidence'' = Num sc)"
proof -
  let ?mc = "prepare_metacritic metacritic_df" and ?st = "prepare_steam steam_df"
  have m: "merged_row g s sc \<in> set (matched_rows ?st ?mc)"
    using assms by (force simp: matched_rows_def)
  then have "matched_rows ?st ?mc \<noteq> []" by auto
  from merge_datasets_returns [OF this] obtain df where
    df: "merge_datasets metacritic_df steam_df = Inr df" by blast
  from m have "merged_row g s sc \<in> set (pre_rows ?mc ?st)" by (simp add: pre_rows_def Let_def)
  with merge_datasets_rows [OF df] obtain b where
    "finish_row b (merged_row g s sc) \<in> set (rows df)" by auto
  with df show ?thesis
    by (intro exI [of _ df] conjI bexI [of _ "finish_row b (merged_row g s sc)"])
       (simp_all add: cell_of_finish_row cells_of_rows)
qed

subsection \<open>Every record once\<close>

definition has_match :: "steam_game list \<Rightarrow> metacritic_game \<Rightarrow> bool" where
  "has_match steam g = (fst (find_best_match g steam) \<noteq> None)"

lemma mc_cells_rows:
  "mc_cells (merged_row g s c) = mc_fields g"
  "mc_cells (unmatched_mc_row g) = mc_fields g"
  "hd (mc_cells (unmatched_steam_row s)) = st_title s"
  by (simp_all add: mc_cells_def mc_fields_def cell_of_def merged_row_def unmatched_mc_row_def
      unmatched_steam_row_def)

lemma mc_cells_finish_row: "mc_cells (finish_row b r) = mc_cells r"
  by (simp add: mc_cells_def cell_of_finish_row)

lemma matched_rows_single:
  "matched_rows steam [g] =
     (if has_match steam g
      then [merged_row g (the (fst (find_best_match g steam))) (snd (find_best_match g steam))]
      else [])"
  by (cases "find_best_match g steam"; cases "fst (find_best_match g steam)")
     (simp_all add: matched_rows_def has_match_def)

lemma titles_matched_rows:
  "map title_of (matched_rows steam metacritic) = map mc_title (filter (has_match steam) metacritic)"
proof (induction metacritic)
  case Nil
  then show ?case by (simp add: matched_rows_def)
next
  case (Cons g gs)
  then show ?case
    by (simp add: matched_rows_Cons [of steam g gs] matched_rows_single title_of_rows)
qed

lemma count_matched_rows:
  "length (filter (\<lambda>r. mc_cells r = x) (matched_rows steam metacritic)) =
     length (filter (\<lambda>g. has_match steam g \<and> mc_fields g = x) metacritic)"
proof (induction metacritic)
  case Nil
  then show ?case by (simp add: matched_rows_def)
next
  case (Cons g gs)
  then show ?case
    by (simp add: matched_rows_Cons [of steam g gs] matched_rows_single mc_cells_rows)
qed

lemma unmatched_of_distinct:
  assumes "distinct (map mc_title metacritic)"
  shows "filter (\<lambda>g. mc_title g \<notin> set (map mc_title (filter (has_match steam) metacritic))) metacritic =
         filter (\<lambda>g. \<not> has_match steam g) metacritic"
proof (rule filter_cong [OF refl])
  fix g assume g: "g \<in> set metacritic"
  from assms have inj: "inj_on mc_title (set metacritic)" by (simp add: distinct_map)
  show "(mc_title g \<notin> set (map mc_title (filter (has_match steam) metacritic))) =
        (\<not> has_match steam g)"
  proof
    assume "mc_title g \<notin> set (map mc_title (filter (has_match steam) metacritic))"
    with g show "\<not> has_match steam g" by auto
  next
    assume n: "\<not> has_match steam g"
    show "mc_title g \<notin> set (map mc_title (filter (has_match steam) metacritic))"
    proof
      assume "mc_title g \<in> set (map mc_title (filter (has_match steam) metacritic))"
      then obtain g' where g': "g' \<in> set metacritic" "has_match steam g'" "mc_title g' = mc_title g"
        by auto
      with inj g have "g' = g" by (auto dest: inj_onD)
      with g'(2) n show False by simp
    qed
  qed
qed

lemma pre_rows_distinct:
  assumes "distinct (map mc_title metacritic)"
  shows "pre_rows metacritic steam =
     matched_rows steam metacritic @
     map unmatched_mc_row (filter (\<lambda>g. \<not> has_match steam g) metacritic) @
     map unmatched_steam_row (filter (\<lambda>s. st_title s \<notin> mc_title ` set metacritic) steam)"
proof -
  let ?m = "matched_rows steam metacritic"
  let ?u1 = "filter (\<lambda>g. \<not> has_match steam g) metacritic"
  have u1: "filter (\<lambda>g. mc_title g \<notin> set (map title_of ?m)) metacritic = ?u1"
    unfolding titles_matched_rows by (rule unmatched_of_distinct [OF assms])
  have "set (map title_of (?m @ map unmatched_mc_row ?u1)) = mc_title ` set metacritic"
    by (auto simp: titles_matched_rows title_of_rows image_iff)
  then show ?thesis
    unfolding pre_rows_def Let_def u1 by simp
qed

lemma exactly_one_by_title:
  assumes "distinct (map mc_title metacritic)" "g \<in> set metacritic"
  shows "length (filter (\<lambda>g'. mc_fields g' = mc_fields g) metacritic) = 1"
proof -
  from assms(1) have d: "distinct metacritic" and inj: "inj_on mc_title (set metacritic)"
    by (simp_all add: distinct_map)
  have "{g'. mc_fields g' = mc_fields g} \<inter> set metacritic = {g}"
  proof -
    have "g' = g" if "mc_fields g' = mc_fields g" "g' \<in> set metacritic" for g'
    proof -
      from that(1) have "mc_title g' = mc_title g" by (simp add: mc_fields_def)
      with inj that(2) assms(2) show ?thesis by (auto dest: inj_onD)
    qed
    with assms(2) show ?thesis by auto
  qed
  with d show ?thesis by (simp add: distinct_length_filter)
qed

lemma length_filter_split:
  "length (filter (\<lambda>x. P x \<and> Q x) xs) + length (filter (\<lambda>x. \<not> P x \<and> Q x) xs) =
   length (filter Q xs)"
  by (induction xs) auto

lemma metacritic_rows_once:
  assumes "merge_datasets metacritic_df steam_df = Inr df"
    "distinct (map mc_title (prepare_metacritic metacritic_df))"
    "g \<in> set (prepare_metacritic metacritic_df)"
  shows "metacritic_occurrences df g = 1"
    and "length (rows df) =
         length (filter (has_match (prepare_steam steam_df)) (prepare_metacritic metacritic_df)) +
         length (filter (\<lambda>g. \<not> has_match (prepare_steam steam_df) g)
                   (prepare_metacritic metacritic_df)) +
         length (filter (\<lambda>s. st_title s \<notin> mc_title ` set (prepare_metacritic metacritic_df))
                   (prepare_steam steam_df))"
proof -
  let ?mc = "prepare_metacritic metacritic_df" and ?st = "prepare_steam steam_df"
  let ?u2 = "filter (\<lambda>s. st_title s \<notin> mc_title ` set ?mc) ?st"
  note p = pre_rows_distinct [OF assms(2), of ?st]
  from merge_datasets_rows [OF assms(1)] obtain b where
    r: "rows df = map (finish_row b) (pre_rows ?mc ?st)" by blast
  have "length (matched_rows ?st ?mc) = length (filter (has_match ?st) ?mc)"
    using titles_matched_rows [of ?st ?mc] by (metis length_map)
  then show "length (rows df) = length (filter (has_match ?st) ?mc) +
         length (filter (\<lambda>g. \<not> has_match ?st g) ?mc) + length ?u2"
    by (simp add: r p)
  have "filter (\<lambda>r. mc_cells r = mc_fields g) (map unmatched_steam_row ?u2) = []"
  proof -
    have "mc_cells (unmatched_steam_row s) \<noteq> mc_fields g" if "s \<in> set ?u2" for s
    proof
      assume "mc_cells (unmatched_steam_row s) = mc_fields g"
      then have "hd (mc_cells (unmatched_steam_row s)) = hd (mc_fields g)" by simp
      then have "st_title s = mc_title g" by (simp add: mc_cells_rows mc_fields_def)
      with that assms(3) show False by auto
    qed
    then show ?thesis by (auto simp: filter_empty_conv)
  qed
  moreover have "length (filter (\<lambda>r. mc_cells r = mc_fields g)
        (map unmatched_mc_row (filter (\<lambda>g. \<not> has_match ?st g) ?mc))) =
      length (filter (\<lambda>g'. \<not> has_match ?st g' \<and> mc_fields g' = mc_fields g) ?mc)"
    by (simp add: filter_map comp_def mc_cells_rows conj_commute)
  ultimately have "metacritic_occurrences df g =
      length (filter (\<lambda>g'. has_match ?st g' \<and> mc_fields g' = mc_fields g) ?mc) +
      length (filter (\<lambda>g'. \<not> has_match ?st g' \<and> mc_fields g' = mc_fields g) ?mc)"
    by (simp add: metacritic_occurrences_def r p filter_map comp_def mc_cells_finish_row
        count_matched_rows)
  then show "metacritic_occurrences df g = 1"
    by (simp add: length_filter_split exactly_one_by_title [OF assms(2,3)])
qed

subsection \<open>The right records in the rows\<close>

text \<open>
  The right-hand records of the matched rows: the best match of each left record that has
  one (lines 99 to 127).
\<close>

definition best_matches :: "metacritic_game list \<Rightarrow> steam_game list \<Rightarrow> steam_game list" where
  "best_matches metacritic steam =
     concat (map (\<lambda>g. case fst (find_best_match g steam) of Some s \<Rightarrow> [s] | None \<Rightarrow> [])
       metacritic)"

text \<open>
  The unmatched right records as the specification describes them: the right records whose
  title is the title of no right-hand record of a matched row.
\<close>

definition spec_unmatched_right :: "metacritic_game list \<Rightarrow> steam_game list \<Rightarrow> steam_game list" where
  "spec_unmatched_right metacritic steam =
     filter (\<lambda>s. st_title s \<notin> st_title ` set (best_matches metacritic steam)) steam"

text \<open>
  Line 160 tests the title of a right record against the column \<open>game_title\<close>, which holds
  the titles of the left records.  The two tests agree on a pair of tables when a right
  title is a left title exactly when it is the title of a right-hand record of a matched row.
\<close>

definition title_test_agrees :: "metacritic_game list \<Rightarrow> steam_game list \<Rightarrow> bool" where
  "title_test_agrees metacritic steam =
     (\<forall>s\<in>set steam. (st_title s \<in> mc_title ` set metacritic) =
        (st_title s \<in> st_title ` set (best_matches metacritic steam)))"

text \<open>
  The right records can be told apart in the rows: their titles are pairwise distinct, and so
  are their application URLs, none of which is missing.
\<close>

definition identified :: "steam_game list \<Rightarrow> bool" where
  "identified steam =
     (distinct (map st_title steam) \<and> distinct (map st_app_url steam) \<and>
      Null \<notin> st_app_url ` set steam)"

lemma steam_cells_rows:
  "steam_cells (merged_row g s c) = steam_fields s"
  "hd (steam_cells (unmatched_mc_row g)) = Null"
  "steam_cells (unmatched_steam_row s) = steam_fields s"
  by (simp_all add: steam_cells_def steam_fields_def cell_of_def merged_row_def
      unmatched_mc_row_def unmatched_steam_row_def)

lemma steam_cells_finish_row: "steam_cells (finish_row b r) = steam_cells r"
  by (simp add: steam_cells_def cell_of_finish_row)

lemma best_matches_set:
  "s \<in> set (best_matches metacritic steam) \<longleftrightarrow>
     (\<exists>g\<in>set metacritic. fst (find_best_match g steam) = Some s)"
  by (auto simp: best_matches_def split: option.splits) metis

lemma best_match_member:
  assumes "fst (find_best_match g steam) = Some s"
  shows "s \<in> set steam"
proof -
  from assms have "find_best_match g steam = (Some s, snd (find_best_match g steam))"
    by (metis prod.collapse)
  from find_best_match_Some [OF this] show ?thesis by blast
qed

lemma count_matched_steam:
  "length (filter (\<lambda>r. steam_cells r = x) (matched_rows steam metacritic)) =
     length (filter (\<lambda>g. has_match steam g \<and>
                steam_fields (the (fst (find_best_match g steam))) = x) metacritic)"
proof (induction metacritic)
  case Nil
  then show ?case by (simp add: matched_rows_def)
next
  case (Cons g gs)
  then show ?case
    by (simp add: matched_rows_Cons [of steam g gs] matched_rows_single steam_cells_rows)
qed

lemma identified_inj:
  assumes "identified steam" "s \<in> set steam" "s' \<in> set steam"
  shows "steam_fields s' = steam_fields s \<longleftrightarrow> s' = s"
    and "st_title s' = st_title s \<longleftrightarrow> s' = s"
    and "st_app_url s \<noteq> Null"
proof -
  from assms(1) have i: "inj_on st_app_url (set steam)" "inj_on st_title (set steam)"
    by (simp_all add: identified_def distinct_map)
  show "steam_fields s' = steam_fields s \<longleftrightarrow> s' = s"
  proof
    assume "steam_fields s' = steam_fields s"
    then have "st_app_url s' = st_app_url s" by (simp add: steam_fields_def)
    with i(1) assms(2,3) show "s' = s" by (auto dest: inj_onD)
  qed simp
  show "st_title s' = st_title s \<longleftrightarrow> s' = s"
    using i(2) assms(2,3) by (auto dest: inj_onD)
  from assms(1,2) show "st_app_url s \<noteq> Null" by (metis identified_def imageI)
qed

lemma chosen_by_fields:
  assumes "identified steam" "s \<in> set steam"
  shows "filter (\<lambda>g. has_match steam g \<and>
            steam_fields (the (fst (find_best_match g steam))) = steam_fields s) metacritic =
         filter (\<lambda>g. fst (find_best_match g steam) = Some s) metacritic"
proof (rule filter_cong [OF refl])
  fix g
  show "(has_match steam g \<and>
          steam_fields (the (fst (find_best_match g steam))) = steam_fields s) =
        (fst (find_best_match g steam) = Some s)"
  proof (cases "fst (find_best_match g steam)")
    case None
    then show ?thesis by (simp add: has_match_def)
  next
    case (Some s')
    from best_match_member [OF Some] have "s' \<in> set steam" .
    from identified_inj(1) [OF assms this] Some show ?thesis
      by (simp add: has_match_def)
  qed
qed

lemma rows_count_by_test:
  assumes "merge_datasets metacritic_df steam_df = Inr df"
    "distinct (map mc_title (prepare_metacritic metacritic_df))"
    "title_test_agrees (prepare_metacritic metacritic_df) (prepare_steam steam_df)"
  shows "rows df =
     map (finish_row (list_ex in_mask (map (set_cell ''combined_score'' Null)
            (pre_rows (prepare_metacritic metacritic_df) (prepare_steam steam_df)))))
       (matched_rows (prepare_steam steam_df) (prepare_metacritic metacritic_df) @
        map unmatched_mc_row (filter (\<lambda>g. \<not> has_match (prepare_steam steam_df) g)
          (prepare_metacritic metacritic_df)) @
        map unmatched_steam_row
          (spec_unmatched_right (prepare_metacritic metacritic_df) (prepare_steam steam_df)))"
proof -
  let ?mc = "prepare_metacritic metacritic_df" and ?st = "prepare_steam steam_df"
  have "filter (\<lambda>s. st_title s \<notin> mc_title ` set ?mc) ?st = spec_unmatched_right ?mc ?st"
    unfolding spec_unmatched_right_def
    by (rule filter_cong [OF refl]) (use assms(3) in \<open>simp add: title_test_agrees_def\<close>)
  with pre_rows_distinct [OF assms(2), of ?st] merge_datasets_rows [OF assms(1)]
  show ?thesis by simp
qed

lemma steam_rows_count:
  assumes "merge_datasets metacritic_df steam_df = Inr df"
    "distinct (map mc_title (prepare_metacritic metacritic_df))"
    "title_test_agrees (prepare_metacritic metacritic_df) (prepare_steam steam_df)"
    "identified (prepare_steam steam_df)"
    "s \<in> set (prepare_steam steam_df)"
  shows "steam_occurrences df s =
     max 1 (length (filter (\<lambda>g. fst (find_best_match g (prepare_steam steam_df)) = Some s)
              (prepare_metacritic metacritic_df)))"
proof -
  let ?mc = "prepare_metacritic metacritic_df" and ?st = "prepare_steam steam_df"
  let ?u1 = "filter (\<lambda>g. \<not> has_match ?st g) ?mc"
  let ?u2 = "spec_unmatched_right ?mc ?st"
  let ?n = "length (filter (\<lambda>g. fst (find_best_match g ?st) = Some s) ?mc)"
  let ?P = "\<lambda>r. steam_cells r = steam_fields s"
  from rows_count_by_test [OF assms(1-3)] obtain b where
    r: "rows df = map (finish_row b)
          (matched_rows ?st ?mc @ map unmatched_mc_row ?u1 @ map unmatched_steam_row ?u2)"
    by blast
  have a: "length (filter ?P (matched_rows ?st ?mc)) = ?n"
    by (simp add: count_matched_steam chosen_by_fields [OF assms(4,5)])
  have "\<not> ?P (unmatched_mc_row g)" for g
  proof
    assume "?P (unmatched_mc_row g)"
    then have "hd (steam_cells (unmatched_mc_row g)) = hd (steam_fields s)" by simp
    then have "st_app_url s = Null" by (simp add: steam_cells_rows steam_fields_def)
    with identified_inj(3) [OF assms(4,5,5)] show False by simp
  qed
  then have b: "filter ?P (map unmatched_mc_row ?u1) = []"
    by (simp add: filter_empty_conv)
  have u2: "set ?u2 \<subseteq> set ?st" "distinct ?u2"
    using assms(4) by (auto simp: spec_unmatched_right_def identified_def distinct_map)
  have "filter ?P (map unmatched_steam_row ?u2) = map unmatched_steam_row (filter (\<lambda>x. x = s) ?u2)"
  proof -
    have "filter (\<lambda>x. steam_fields x = steam_fields s) ?u2 = filter (\<lambda>x. x = s) ?u2"
      by (rule filter_cong [OF refl]) (use u2(1) identified_inj(1) [OF assms(4,5)] in blast)
    then show ?thesis by (simp add: filter_map comp_def steam_cells_rows)
  qed
  then have c: "length (filter ?P (map unmatched_steam_row ?u2)) = (if s \<in> set ?u2 then 1 else 0)"
    using u2(2) by (simp add: distinct_length_filter)
  have fm: "filter ?P (map (finish_row b) xs) = map (finish_row b) (filter ?P xs)" for xs
    by (simp add: filter_map comp_def steam_cells_finish_row)
  have "steam_occurrences df s =
      length (filter ?P (matched_rows ?st ?mc)) +
      (length (filter ?P (map unmatched_mc_row ?u1)) +
       length (filter ?P (map unmatched_steam_row ?u2)))"
    unfolding steam_occurrences_def r fm
    by (simp only: filter_append length_append length_map)
  then have occ: "steam_occurrences df s = ?n + (if s \<in> set ?u2 then 1 else 0)"
    unfolding a b c by simp
  have chosen: "s \<in> set ?u2 \<longleftrightarrow> ?n = 0"
  proof
    assume "s \<in> set ?u2"
    then have "s \<notin> set (best_matches ?mc ?st)" by (auto simp: spec_unmatched_right_def)
    then show "?n = 0" by (auto simp: best_matches_set filter_empty_conv)
  next
    assume "?n = 0"
    then have n: "s \<notin> set (best_matches ?mc ?st)"
      by (auto simp: best_matches_set filter_empty_conv)
    have "st_title s \<notin> st_title ` set (best_matches ?mc ?st)"
    proof
      assume "st_title s \<in> st_title ` set (best_matches ?mc ?st)"
      then obtain s' where s': "s' \<in> set (best_matches ?mc ?st)" "st_title s' = st_title s"
        by auto
      from s'(1) have "s' \<in> set ?st" by (auto simp: best_matches_set dest: best_match_member)
      from identified_inj(2) [OF assms(4,5) this] s'(2) have "s' = s" by simp
      with s'(1) n show False by simp
    qed
    with assms(5) show "s \<in> set ?u2" by (simp add: spec_unmatched_right_def)
  qed
  define n where "n = ?n"
  from occ chosen have "steam_occurrences df s = n + (if n = 0 then 1 else 0)"
    by (simp add: n_def)
  then have "steam_occurrences df s = max 1 n" by (cases n) simp_all
  then show ?thesis by (simp add: n_def)
qed

subsection \<open>The claims about the record linker\<close>

lemma halo_pair_returns: "\<not> isl (merge_datasets [halo2_left] [halo_right])"
  by code_simp

lemma halo_tables_return: "\<not> isl (merge_datasets [halo_left, halo2_left] [halo_right])"
  by code_simp

lemma halo_pair_best: "find_best_match halo2_left [halo_right] = (Some halo_right, 4 / 5)"
  by code_simp

lemma halo_tables_prepared:
  "prepare_metacritic [halo_left, halo2_left] = [halo_left, halo2_left]"
  "prepare_metacritic [halo2_left] = [halo2_left]"
  "prepare_steam [halo_right] = [halo_right]"
  by code_simp+

text \<open>
  Claim C1 says that a matched row with a metascore and a review summary has
  \<open>combined_score = metascore * 0.6 + bucket * 0.4\<close>, with the bucket of the nine-label
  table (85 for \<open>Very Positive\<close>), and that the scenario of the specification gives one matched
  row of confidence 1.0 and combined score 82.0.  On the scenario the code gives the one
  matched row of confidence 1, but no combined score: \<open>merge_datasets\<close> does not read the
  table of \<open>clean_steam_data\<close>, it takes the first run of digits of the label, and none of
  the nine labels has a digit.
\<close>

theorem merge_scenario_no_combined_score:
  "(case merge_datasets [game_a_left] [game_a_right] of
      Inl e \<Rightarrow> False
    | Inr df \<Rightarrow>
        map (\<lambda>r. (cell_of r ''game_title'', cell_of r ''is_matched'', cell_of r ''match_confidence'',
                  cell_of r ''steam_review_score'', cell_of r ''combined_score'')) (rows df) =
        [(Str ''Game A'', Bool True, Num 1, Null, Null)]) \<and>
   list_all (\<lambda>label. steam_review_score (Str label) = None)
     [''Overwhelmingly Positive'', ''Very Positive'', ''Positive'', ''Mostly Positive'', ''Mixed'',
      ''Mostly Negative'', ''Negative'', ''Very Negative'', ''Overwhelmingly Negative'']"
  by code_simp

text \<open>
  Claim C4 says that a Steam record becomes an unmatched row exactly when its title is not
  the title of the right-hand record of a matched row.  The code tests the title against
  the column \<open>game_title\<close> of the table so far, which holds the Metacritic titles: the Steam
  record \<open>Halo\<close>, matched by the Metacritic record \<open>Halo 2\<close>, is in the matched row and in
  an unmatched row of its own.
\<close>

theorem matched_steam_row_emitted_as_unmatched:
  "(case merge_datasets [halo2_left] [halo_right] of
      Inl e \<Rightarrow> False
    | Inr df \<Rightarrow>
        map (\<lambda>r. (cell_of r ''game_title'', cell_of r ''steam_url'', cell_of r ''is_matched''))
          (rows df) =
        [(Str ''Halo 2'', Str ''s1'', Bool True), (Str ''Halo'', Str ''s1'', Bool False)])"
  by code_simp

text \<open>
  Claim C5.  A pair is accepted as a match only when its score is above 0.70: the record
  that the scan returns has the score returned, which is above 0.70; a pair that scores
  0.70 or less is never the match; a pair that scores above 0.70 and above every other pair
  of the left record is the match, and when it scores above 0.70 and no pair scores more,
  the left record is matched with that score.  In the table returned, the matched pair is a
  row with \<open>is_matched\<close> true and its score as \<open>match_confidence\<close>, and every row with
  \<open>is_matched\<close> true has a \<open>match_confidence\<close> above 0.70.  (Scores are exact rationals here.)
\<close>

theorem match_only_above_threshold:
  "(find_best_match g steam = (Some s, sc) \<longrightarrow>
      s \<in> set steam \<and> sc = match_score g s \<and> 7 / 10 < sc) \<and>
   (match_score g s \<le> 7 / 10 \<longrightarrow> fst (find_best_match g steam) \<noteq> Some s) \<and>
   (s \<in> set steam \<and> 7 / 10 < match_score g s \<and>
      (\<forall>x\<in>set steam. x \<noteq> s \<longrightarrow> match_score g x < match_score g s) \<longrightarrow>
      find_best_match g steam = (Some s, match_score g s)) \<and>
   (s \<in> set steam \<and> 7 / 10 < match_score g s \<and>
      (\<forall>x\<in>set steam. match_score g x \<le> match_score g s) \<longrightarrow>
      (\<exists>s'. find_best_match g steam = (Some s', match_score g s))) \<and>
   (g \<in> set (prepare_metacritic metacritic_df) \<and>
      find_best_match g (prepare_steam steam_df) = (Some s, sc) \<longrightarrow>
      (\<exists>df. merge_datasets metacritic_df steam_df = Inr df \<and>
         (\<exists>r\<in>set (rows df). cell_of r ''game_title'' = mc_title g \<and>
            cell_of r ''steam_url'' = st_app_url s \<and> cell_of r ''is_matched'' = Bool True \<and>
            cell_of r ''match_confidence'' = Num sc))) \<and>
   (merge_datasets metacritic_df steam_df = Inr df \<and> r \<in> set (rows df) \<and>
      cell_of r ''is_matched'' = Bool True \<longrightarrow>
      (\<exists>c. cell_of r ''match_confidence'' = Num c \<and> 7 / 10 < c))"
proof -
  have a: "find_best_match g steam = (Some s, sc) \<longrightarrow>
      s \<in> set steam \<and> sc = match_score g s \<and> 7 / 10 < sc"
    using find_best_match_Some [of g steam s sc] by blast
  have b: "match_score g s \<le> 7 / 10 \<longrightarrow> fst (find_best_match g steam) \<noteq> Some s"
  proof (intro impI notI)
    assume le: "match_score g s \<le> 7 / 10" and "fst (find_best_match g steam) = Some s"
    then have "find_best_match g steam = (Some s, snd (find_best_match g steam))"
      by (simp add: prod_eq_iff)
    from find_best_match_Some [OF this] le show False by simp
  qed
  have c: "s \<in> set steam \<and> 7 / 10 < match_score g s \<and>
      (\<forall>x\<in>set steam. x \<noteq> s \<longrightarrow> match_score g x < match_score g s) \<longrightarrow>
      find_best_match g steam = (Some s, match_score g s)"
    using find_best_match_unique_best [of s steam g] by blast
  have d: "s \<in> set steam \<and> 7 / 10 < match_score g s \<and>
      (\<forall>x\<in>set steam. match_score g x \<le> match_score g s) \<longrightarrow>
      (\<exists>s'. find_best_match g steam = (Some s', match_score g s))"
    using find_best_match_best [of s steam g] by blast
  have e: "g \<in> set (prepare_metacritic metacritic_df) \<and>
      find_best_match g (prepare_steam steam_df) = (Some s, sc) \<longrightarrow>
      (\<exists>df. merge_datasets metacritic_df steam_df = Inr df \<and>
         (\<exists>r\<in>set (rows df). cell_of r ''game_title'' = mc_title g \<and>
            cell_of r ''steam_url'' = st_app_url s \<and> cell_of r ''is_matched'' = Bool True \<and>
            cell_of r ''match_confidence'' = Num sc))"
    using matched_pair_in_output [of g metacritic_df steam_df s sc] by blast
  have f: "merge_datasets metacritic_df steam_df = Inr df \<and> r \<in> set (rows df) \<and>
      cell_of r ''is_matched'' = Bool True \<longrightarrow>
      (\<exists>c. cell_of r ''match_confidence'' = Num c \<and> 7 / 10 < c)"
    using matched_output_row_confidence [of metacritic_df steam_df df r] by blast
  from a b c d e f show ?thesis by blast
qed

theorem match_only_above_threshold_witness:
  "find_best_match halo2_left [halo_right] = (Some halo_right, 4 / 5) \<and>
   match_score halo2_left halo_right = 4 / 5 \<and>
   match_score halo_bungie_left halo_other_right = 7 / 10 \<and>
   fst (find_best_match halo_bungie_left [halo_other_right]) \<noteq> Some halo_other_right \<and>
   (\<exists>df. merge_datasets [halo2_left] [halo_right] = Inr df \<and>
      (\<exists>r\<in>set (rows df). cell_of r ''game_title'' = Str ''Halo 2'' \<and>
         cell_of r ''steam_url'' = Str ''s1'' \<and> cell_of r ''is_matched'' = Bool True \<and>
         cell_of r ''match_confidence'' = Num (4 / 5) \<and> (7 :: rat) / 10 < 4 / 5))"
proof -
  have s1: "match_score halo2_left halo_right = 4 / 5" by code_simp
  have s2: "match_score halo_bungie_left halo_other_right = 7 / 10" by code_simp
  have t: "mc_title halo2_left = Str ''Halo 2''" "st_app_url halo_right = Str ''s1''"
    by code_simp+
  have m: "halo2_left \<in> set (prepare_metacritic [halo2_left])" "halo_right \<in> set [halo_right]"
    by (simp_all add: halo_tables_prepared)
  note w1 = match_only_above_threshold [of halo2_left "[halo_right]" halo_right "4 / 5"
      "[halo2_left]" "[halo_right]"]
  note w2 = match_only_above_threshold [of halo_bungie_left "[halo_other_right]" halo_other_right]
  from w1 halo_pair_best m(1) have
    "\<exists>df. merge_datasets [halo2_left] [halo_right] = Inr df \<and>
      (\<exists>r\<in>set (rows df). cell_of r ''game_title'' = mc_title halo2_left \<and>
         cell_of r ''steam_url'' = st_app_url halo_right \<and> cell_of r ''is_matched'' = Bool True \<and>
         cell_of r ''match_confidence'' = Num (4 / 5))"
    by (simp add: halo_tables_prepared)
  moreover from w2 s2 have
    "fst (find_best_match halo_bungie_left [halo_other_right]) \<noteq> Some halo_other_right"
    by simp
  ultimately show ?thesis using halo_pair_best s1 s2 by (simp add: t)
qed

text \<open>
  Claim C10.  Every table that \<open>merge_datasets\<close> returns has the nineteen columns of the row
  dictionaries and \<open>combined_score\<close>, and \<open>steam_review_score\<close> after them when a row has a
  combined score to compute; it has none of \<open>mc_title\<close>, \<open>mc_metascore\<close>, \<open>mc_genres\<close>,
  \<open>mc_developer\<close>, \<open>steam_title\<close> and \<open>steam_price_numeric\<close>, so \<open>validate_data\<close> returns
  \<open>False\<close> on it, whatever the two thresholds (the frame read back from the file is taken to
  have the columns and rows of the frame written).
\<close>

theorem merge_datasets_fails_validation:
  assumes "merge_datasets metacritic_df steam_df = Inr df"
  shows "(columns df =
            [''game_title'', ''metacritic_url'', ''metascore'', ''platform'', ''release_date'',
             ''developer'', ''publisher'', ''genres'', ''steam_url'', ''price'', ''discount'',
             ''steam_review_summary'', ''steam_review_count'', ''steam_release_date'',
             ''steam_developer'', ''steam_publisher'', ''steam_tags'', ''match_confidence'',
             ''is_matched'', ''combined_score''] \<or>
          columns df =
            [''game_title'', ''metacritic_url'', ''metascore'', ''platform'', ''release_date'',
             ''developer'', ''publisher'', ''genres'', ''steam_url'', ''price'', ''discount'',
             ''steam_review_summary'', ''steam_review_count'', ''steam_release_date'',
             ''steam_developer'', ''steam_publisher'', ''steam_tags'', ''match_confidence'',
             ''is_matched'', ''combined_score'', ''steam_review_score'']) \<and>
         list_all (\<lambda>c. c \<notin> set (columns df))
           [''mc_title'', ''mc_metascore'', ''mc_genres'', ''mc_developer'', ''steam_title'',
            ''steam_price_numeric''] \<and>
         validate_data min_rows min_matched df = Inr False"
proof -
  from merge_datasets_columns [OF assms] have
    c: "columns df = row_keys @ [''combined_score''] \<or>
        columns df = row_keys @ [''combined_score'', ''steam_review_score'']" .
  then have m: "''is_matched'' \<in> set (columns df)" "''mc_title'' \<notin> set (columns df)"
    by (auto simp: row_keys_def)
  then have "filter (\<lambda>col. col \<notin> set (columns df)) required_columns \<noteq> []"
    by (simp add: required_columns_def)
  with m(1) have v: "validate_data min_rows min_matched df = Inr False"
    by (simp add: validate_data_def Let_def)
  from c have l: "list_all (\<lambda>c. c \<notin> set (columns df))
           [''mc_title'', ''mc_metascore'', ''mc_genres'', ''mc_developer'', ''steam_title'',
            ''steam_price_numeric'']"
    by (auto simp: row_keys_def)
  from c v l show ?thesis by (simp add: row_keys_def)
qed

theorem merge_datasets_fails_validation_witness:
  "(\<exists>df. merge_datasets [halo2_left] [halo_right] = Inr df \<and>
      validate_data 1 1 df = Inr False \<and> ''steam_tags'' \<in> set (columns df) \<and>
      ''steam_title'' \<notin> set (columns df))"
proof -
  obtain df where df: "merge_datasets [halo2_left] [halo_right] = Inr df"
    using halo_pair_returns by (cases "merge_datasets [halo2_left] [halo_right]") simp_all
  from merge_datasets_fails_validation [OF df, of 1 1] df show ?thesis by auto
qed

text \<open>
  Claim C3 says that every record of either side with a title appears in exactly one row of
  the output.  The Steam record \<open>Halo\<close> is the best match of both Metacritic records
  \<open>Halo\<close> and \<open>Halo 2\<close>, and appears in two rows.
\<close>

theorem steam_record_in_two_rows:
  "(case merge_datasets [halo_left, halo2_left] [halo_right] of
      Inl e \<Rightarrow> False
    | Inr df \<Rightarrow> steam_occurrences df halo_right = 2 \<and> length (rows df) = 2)"
  by code_simp

lemma greedy_tables_agree:
  "title_test_agrees (prepare_metacritic [halo_left, halo2_left]) (prepare_steam [halo_right])"
  "identified (prepare_steam [halo_right])"
  "halo_right \<in> set (prepare_steam [halo_right])"
  "halo2_left \<in> set (prepare_metacritic [halo_left, halo2_left])"
  "distinct (map mc_title (prepare_metacritic [halo_left, halo2_left]))"
  "length (filter (\<lambda>g. fst (find_best_match g (prepare_steam [halo_right])) = Some halo_right)
     (prepare_metacritic [halo_left, halo2_left])) = 2"
  by code_simp+

lemma mixed_tables_return:
  "\<not> isl (merge_datasets [halo_left, doom_left] [halo_right, quake_right])"
  by code_simp

lemma mixed_tables_agree:
  "title_test_agrees (prepare_metacritic [halo_left, doom_left])
     (prepare_steam [halo_right, quake_right])"
  "identified (prepare_steam [halo_right, quake_right])"
  "distinct (map mc_title (prepare_metacritic [halo_left, doom_left]))"
  "doom_left \<in> set (prepare_metacritic [halo_left, doom_left])"
  "quake_right \<in> set (prepare_steam [halo_right, quake_right])"
  by code_simp+

lemma mixed_tables_counts:
  "length (filter (has_match (prepare_steam [halo_right, quake_right]))
     (prepare_metacritic [halo_left, doom_left])) = 1"
  "length (filter (\<lambda>g. \<not> has_match (prepare_steam [halo_right, quake_right]) g)
     (prepare_metacritic [halo_left, doom_left])) = 1"
  "length (spec_unmatched_right (prepare_metacritic [halo_left, doom_left])
     (prepare_steam [halo_right, quake_right])) = 1"
  "length (filter (\<lambda>g. fst (find_best_match g (prepare_steam [halo_right, quake_right])) =
       Some quake_right) (prepare_metacritic [halo_left, doom_left])) = 0"
  by code_simp+

text \<open>
  Claim C3, as amended.  Let \<open>merge_datasets\<close> return, let the cleaned titles of the left
  table be pairwise distinct, and let the title test of line 160 agree with the
  specification's test on the two tables.  Then the number of rows is the number of left
  records with a match, plus the number of left records without one, plus the number of
  right records whose title is the title of no right-hand record of a matched row; every
  left record with a title appears in exactly one row; and, when the right records have
  pairwise distinct titles and application URLs, a right record with a title appears once
  for each left record whose best match it is, and once when it is the best match of none.
\<close>

theorem records_appear_in_rows:
  assumes "merge_datasets metacritic_df steam_df = Inr df"
    "distinct (map mc_title (prepare_metacritic metacritic_df))"
    "title_test_agrees (prepare_metacritic metacritic_df) (prepare_steam steam_df)"
    "g \<in> set (prepare_metacritic metacritic_df)"
    "s \<in> set (prepare_steam steam_df)"
  shows "length (rows df) =
           length (filter (has_match (prepare_steam steam_df)) (prepare_metacritic metacritic_df)) +
           length (filter (\<lambda>g. \<not> has_match (prepare_steam steam_df) g)
                     (prepare_metacritic metacritic_df)) +
           length (spec_unmatched_right (prepare_metacritic metacritic_df) (prepare_steam steam_df)) \<and>
         metacritic_occurrences df g = 1 \<and>
         (identified (prepare_steam steam_df) \<longrightarrow>
            steam_occurrences df s =
              max 1 (length (filter (\<lambda>g. fst (find_best_match g (prepare_steam steam_df)) = Some s)
                       (prepare_metacritic metacritic_df))))"
proof -
  let ?mc = "prepare_metacritic metacritic_df" and ?st = "prepare_steam steam_df"
  have "length (matched_rows ?st ?mc) = length (filter (has_match ?st) ?mc)"
    using titles_matched_rows [of ?st ?mc] by (metis length_map)
  with rows_count_by_test [OF assms(1-3)] have
    "length (rows df) = length (filter (has_match ?st) ?mc) +
       length (filter (\<lambda>g. \<not> has_match ?st g) ?mc) + length (spec_unmatched_right ?mc ?st)"
    by simp
  moreover note metacritic_rows_once(1) [OF assms(1,2,4)]
  moreover have "steam_occurrences df s =
      max 1 (length (filter (\<lambda>g. fst (find_best_match g ?st) = Some s) ?mc))"
    if "identified ?st"
    using steam_rows_count [OF assms(1-3) that assms(5)] .
  ultimately show ?thesis by blast
qed

theorem records_appear_in_rows_witness:
  "title_test_agrees (prepare_metacritic [halo_left, doom_left])
     (prepare_steam [halo_right, quake_right]) \<and>
   identified (prepare_steam [halo_right, quake_right]) \<and>
   (\<exists>df. merge_datasets [halo_left, doom_left] [halo_right, quake_right] = Inr df \<and>
      length (rows df) = 3 \<and> metacritic_occurrences df doom_left = 1 \<and>
      steam_occurrences df quake_right = 1) \<and>
   (\<exists>df. merge_datasets [halo_left, halo2_left] [halo_right] = Inr df \<and>
      metacritic_occurrences df halo2_left = 1 \<and> steam_occurrences df halo_right = 2)"
proof -
  obtain df where df: "merge_datasets [halo_left, doom_left] [halo_right, quake_right] = Inr df"
    using mixed_tables_return
    by (cases "merge_datasets [halo_left, doom_left] [halo_right, quake_right]") simp_all
  obtain df' where df': "merge_datasets [halo_left, halo2_left] [halo_right] = Inr df'"
    using halo_tables_return
    by (cases "merge_datasets [halo_left, halo2_left] [halo_right]") simp_all
  from records_appear_in_rows [OF df mixed_tables_agree(3,1,4,5)] mixed_tables_agree(2)
    mixed_tables_counts
  have a: "length (rows df) = 3 \<and> metacritic_occurrences df doom_left = 1 \<and>
      steam_occurrences df quake_right = 1"
    by simp
  from records_appear_in_rows [OF df' greedy_tables_agree(5,1,4,3)] greedy_tables_agree(2,6)
  have b: "metacritic_occurrences df' halo2_left = 1 \<and> steam_occurrences df' halo_right = 2"
    by simp
  from a b df df' mixed_tables_agree(1,2) show ?thesis by blast
qed

end
